theory Spec2Isabelle
  imports Main
begin

section \<open>Step definitions, step classes and the two lookup tables\<close>

text \<open>
  \<^verbatim>\<open>handler-step-definitions\<close> declares ten definition classes, each with a constant
  \<^verbatim>\<open>type\<close> field, and the table \<^verbatim>\<open>StepDefinitionLookup\<close>. \<^verbatim>\<open>handler-steps.ts\<close> declares
  ten step classes, each extending one definition class (and so inheriting its
  \<^verbatim>\<open>type\<close> field), and the table \<^verbatim>\<open>StepLookup\<close>. A class is a value of an enumeration,
  a table is the list of its own properties in source order.
\<close>

type_synonym tag = string

datatype definition_class =
    WaitForDurationStepDefinition
  | WaitForChannelStepDefinition
  | WaitForMessageStepDefinition
  | WaitForTrackStepDefinition
  | WaitForMediaStepDefinition
  | SendStepDefinition
  | CloseStepDefinition
  | EchoStepDefinition
  | PeerProxyStepDefinition
  | DynamicProxyStepDefinition

fun definition_type :: "definition_class \<Rightarrow> tag" where
  "definition_type WaitForDurationStepDefinition = ''wait-for-duration''"
| "definition_type WaitForChannelStepDefinition = ''wait-for-channel''"
| "definition_type WaitForMessageStepDefinition = ''wait-for-message''"
| "definition_type WaitForTrackStepDefinition = ''wait-for-track''"
| "definition_type WaitForMediaStepDefinition = ''wait-for-media''"
| "definition_type SendStepDefinition = ''send-message''"
| "definition_type CloseStepDefinition = ''close-connection''"
| "definition_type EchoStepDefinition = ''echo-channels''"
| "definition_type PeerProxyStepDefinition = ''peer-proxy''"
| "definition_type DynamicProxyStepDefinition = ''dynamic-proxy''"

datatype step_class =
    WaitForDurationStep
  | WaitForChannelStep
  | WaitForMessageStep
  | WaitForTrackStep
  | WaitForMediaStep
  | SendStep
  | CloseStep
  | EchoStep
  | PeerProxyStep
  | DynamicProxyStep

text \<open>\<^verbatim>\<open>class WaitForDurationStep extends WaitForDurationStepDefinition\<close>, and so on.\<close>

fun extends :: "step_class \<Rightarrow> definition_class" where
  "extends WaitForDurationStep = WaitForDurationStepDefinition"
| "extends WaitForChannelStep = WaitForChannelStepDefinition"
| "extends WaitForMessageStep = WaitForMessageStepDefinition"
| "extends WaitForTrackStep = WaitForTrackStepDefinition"
| "extends WaitForMediaStep = WaitForMediaStepDefinition"
| "extends SendStep = SendStepDefinition"
| "extends CloseStep = CloseStepDefinition"
| "extends EchoStep = EchoStepDefinition"
| "extends PeerProxyStep = PeerProxyStepDefinition"
| "extends DynamicProxyStep = DynamicProxyStepDefinition"

text \<open>No step class redeclares \<^verbatim>\<open>type\<close>: it is the field of the class it extends.\<close>

definition step_type :: "step_class \<Rightarrow> tag" where
  "step_type c = definition_type (extends c)"

definition StepDefinitionLookup :: "(tag \<times> definition_class) list" where
  "StepDefinitionLookup =
    [(''wait-for-duration'', WaitForDurationStepDefinition),
     (''wait-for-channel'', WaitForChannelStepDefinition),
     (''wait-for-track'', WaitForTrackStepDefinition),
     (''wait-for-media'', WaitForMediaStepDefinition),
     (''wait-for-message'', WaitForMessageStepDefinition),
     (''send-message'', SendStepDefinition),
     (''close-connection'', CloseStepDefinition),
     (''echo-channels'', EchoStepDefinition),
     (''peer-proxy'', PeerProxyStepDefinition),
     (''dynamic-proxy'', DynamicProxyStepDefinition)]"

definition StepLookup :: "(tag \<times> step_class) list" where
  "StepLookup =
    [(''wait-for-duration'', WaitForDurationStep),
     (''wait-for-channel'', WaitForChannelStep),
     (''wait-for-track'', WaitForTrackStep),
     (''wait-for-media'', WaitForMediaStep),
     (''wait-for-message'', WaitForMessageStep),
     (''send-message'', SendStep),
     (''close-connection'', CloseStep),
     (''echo-channels'', EchoStep),
     (''peer-proxy'', PeerProxyStep),
     (''dynamic-proxy'', DynamicProxyStep)]"

text \<open>
  A JavaScript error value. The source never inspects one: it passes on whatever a write
  callback or an answer source hands over.
\<close>

datatype js_error = Error string

text \<open>
  How a step or the registry fails. The source rejects with the error value itself; the
  constructor records the place the rejection comes from, under the name the
  specification gives to that kind of failure: a tag missing from the tables, the
  callback of \<^verbatim>\<open>channel.write\<close> called with an error (\<^verbatim>\<open>SendStep.handle\<close>), the answer source
  of a peer proxy rejecting (\<^verbatim>\<open>await this.getAnswer(externalOffer)\<close>), or a method of the
  transport objects rejecting (\<^verbatim>\<open>getLocalDescription\<close>,
  \<^verbatim>\<open>proxyTrafficToExternalConnection\<close>), a kind the specification leaves unnamed.
\<close>

datatype failure =
    UnknownStepType tag
  | WriteFailed js_error
  | NegotiationFailed js_error
  | TransportFailed js_error

text \<open>
  Modelled from the spec: the registry's operation \<^verbatim>\<open>resolve\<close> (section 4.1 of the
  specification) is not among the source files, which hold the two tables only.
  ``Contract: \<^verbatim>\<open>resolve(tag) -> (DefinitionType, ExecutorType)\<close>; fails with \<^verbatim>\<open>UnknownStepType\<close>
  if the tag is absent.'' The tables looked up are the ones of the source.
\<close>

definition resolve :: "tag \<Rightarrow> failure + (definition_class \<times> step_class)" where
  "resolve t =
    (case map_of StepDefinitionLookup t of
       None \<Rightarrow> Inl (UnknownStepType t)
     | Some d \<Rightarrow>
        (case map_of StepLookup t of
           None \<Rightarrow> Inl (UnknownStepType t)
         | Some s \<Rightarrow> Inr (d, s)))"

definition step_tags :: "tag list" where
  "step_tags =
    [''wait-for-duration'', ''wait-for-channel'', ''wait-for-message'', ''wait-for-track'',
     ''wait-for-media'', ''send-message'', ''close-connection'', ''echo-channels'',
     ''peer-proxy'', ''dynamic-proxy'']"

section \<open>Promises\<close>

text \<open>
  A promise is an entry of a table, named by its index. \<^verbatim>\<open>new Promise\<close> appends a pending
  entry. A promise settles once: resolving or rejecting a settled promise does nothing.
  \<^verbatim>\<open>Promise.all\<close> is the aggregate of ECMAScript: it counts the elements still to be
  fulfilled in \<open>remaining\<close>, is fulfilled when the count reaches zero (at once for no
  elements) and is rejected by the first element that is rejected. An element carries
  the index of its aggregate in \<open>parent\<close>. Microtask delays are not modelled.
\<close>

type_synonym pid = nat

datatype promise_state = Pending | Fulfilled | Rejected failure

record promise =
  pstate :: promise_state
  parent :: "pid option"
  remaining :: nat

definition resolve_in :: "pid \<Rightarrow> promise list \<Rightarrow> promise list" where
  "resolve_in p ps =
    (if p < length ps \<and> pstate (ps ! p) = Pending then
       (let ps1 = ps[p := (ps ! p)\<lparr>pstate := Fulfilled\<rparr>] in
        case parent (ps ! p) of
          None \<Rightarrow> ps1
        | Some q \<Rightarrow>
            if q < length ps1 \<and> pstate (ps1 ! q) = Pending then
              (let r = remaining (ps1 ! q) - 1 in
               ps1[q := (ps1 ! q)\<lparr>remaining := r,
                      pstate := (if r = 0 then Fulfilled else Pending)\<rparr>])
            else ps1)
     else ps)"

definition reject_in :: "pid \<Rightarrow> failure \<Rightarrow> promise list \<Rightarrow> promise list" where
  "reject_in p f ps =
    (if p < length ps \<and> pstate (ps ! p) = Pending then
       (let ps1 = ps[p := (ps ! p)\<lparr>pstate := Rejected f\<rparr>] in
        case parent (ps ! p) of
          None \<Rightarrow> ps1
        | Some q \<Rightarrow>
            if q < length ps1 \<and> pstate (ps1 ! q) = Pending
            then ps1[q := (ps1 ! q)\<lparr>pstate := Rejected f\<rparr>]
            else ps1)
     else ps)"

section \<open>Streams, the connection and the closures of the steps\<close>

type_synonym label = string

datatype message = Text string | Binary "char list"

record session_description =
  sd_type :: string
  sdp :: string

datatype stream_ref = Channel nat | Track nat

datatype event_name =
    ChannelOpenEv
  | RemoteChannelOpenEv
  | TrackOpenEv
  | RemoteTrackOpenEv
  | ConnectionClosedEv

text \<open>
  The functions that the \<^verbatim>\<open>handle\<close> methods create and hand to emitters, one constructor
  for each arrow function of the source, with the values it closes over: the promise
  whose \<^verbatim>\<open>resolve\<close> it calls and the step's \<^verbatim>\<open>channelLabel\<close>. \<open>EchoContent\<close> calls no
  \<^verbatim>\<open>resolve\<close>; its promise is the one of the \<^verbatim>\<open>handle\<close> call that created it.
  \<open>ResolveFn\<close> is \<^verbatim>\<open>resolve\<close> itself, registered by the three perpetual steps;
  \<open>ResolveThunk\<close> is \<^verbatim>\<open>() => resolve()\<close> of \<^verbatim>\<open>WaitForTrackStep\<close>.
\<close>

datatype closure =
    ChannelOpened pid "label option"
  | ListenForMessage pid "label option"
  | MessageReceived pid "label option"
  | ListenForData pid
  | MediaReceived pid
  | EchoContent pid
  | ResolveFn pid
  | ResolveThunk pid

fun closure_pid :: "closure \<Rightarrow> pid" where
  "closure_pid (ChannelOpened p l) = p"
| "closure_pid (ListenForMessage p l) = p"
| "closure_pid (MessageReceived p l) = p"
| "closure_pid (ListenForData p) = p"
| "closure_pid (MediaReceived p) = p"
| "closure_pid (EchoContent p) = p"
| "closure_pid (ResolveFn p) = p"
| "closure_pid (ResolveThunk p) = p"

text \<open>
  What step code does to the connection object, in order: the calls of its emitter
  methods, the reads of its collections, the calls of its proxying methods, and every
  call of a closure (by an emitter or by \<^verbatim>\<open>forEach\<close>).
\<close>

datatype trace_entry =
    CallOn event_name closure
  | CallOnce event_name closure
  | CallRemoveListener event_name closure
  | GetChannels
  | GetRemoteChannels
  | GetMediaTracks
  | GetRemoteMediaTracks
  | CallProxyTrafficTo nat
  | CallProxyTrafficToExternalConnection
  | Invoked closure

text \<open>
  A stream is an emitter of \<^verbatim>\<open>'data'\<close>: its listeners in registration order, each with
  the flag of \<^verbatim>\<open>once\<close>; whether \<^verbatim>\<open>pause()\<close> was called; how often it was piped to itself.
  A data channel has a label as well, the chunks passed to \<^verbatim>\<open>write\<close>, and the callbacks
  of the writes not yet acknowledged (each settles the promise named).
\<close>

record stream =
  data_listeners :: "(bool \<times> closure) list"
  paused :: bool
  pipes :: nat

record channel = stream +
  label :: label
  writes :: "message list"
  write_callbacks :: "pid list"

text \<open>An \<^verbatim>\<open>RTCConnection\<close> created by a proxy step.\<close>

record rtc_connection =
  remoteDescription :: "session_description option"
  rtc_closed :: bool

text \<open>
  The mock connection and the rest of the process that a step touches. Channels and
  tracks are objects: \<open>remoteChannels\<close> and \<open>remoteMediaTracks\<close> hold positions in
  \<open>channels\<close> and \<open>mediaTracks\<close>, steps hold positions in \<open>rtc_connections\<close>.
\<close>

record state =
  channels :: "channel list"
  remoteChannels :: "nat list"
  mediaTracks :: "stream list"
  remoteMediaTracks :: "nat list"
  listeners :: "(event_name \<times> bool \<times> closure) list"
  proxy_targets :: "nat list"
  promises :: "promise list"
  rtc_connections :: "rtc_connection list"
  trace :: "trace_entry list"

definition log :: "trace_entry \<Rightarrow> state \<Rightarrow> state" where
  "log e st = st\<lparr>trace := trace st @ [e]\<rparr>"

definition alloc_promise :: "state \<Rightarrow> state" where
  "alloc_promise st =
    st\<lparr>promises := promises st @ [\<lparr>pstate = Pending, parent = None, remaining = 0\<rparr>]\<rparr>"

definition promise_resolve :: "pid \<Rightarrow> state \<Rightarrow> state" where
  "promise_resolve p st = st\<lparr>promises := resolve_in p (promises st)\<rparr>"

definition promise_reject :: "pid \<Rightarrow> failure \<Rightarrow> state \<Rightarrow> state" where
  "promise_reject p f st = st\<lparr>promises := reject_in p f (promises st)\<rparr>"

definition promise_state_of :: "pid \<Rightarrow> state \<Rightarrow> promise_state" where
  "promise_state_of p st = pstate (promises st ! p)"

subsection \<open>Node's emitter\<close>

text \<open>
  \<^verbatim>\<open>on\<close> and \<^verbatim>\<open>once\<close> append; \<^verbatim>\<open>removeListener\<close> removes the most recently added
  registration of the function, registered by \<^verbatim>\<open>on\<close> or by \<^verbatim>\<open>once\<close>; \<^verbatim>\<open>emit\<close> calls the
  listeners registered when it starts, in order, and a \<^verbatim>\<open>once\<close> registration unregisters
  itself before its function runs.
\<close>

fun remove_first :: "('a \<Rightarrow> bool) \<Rightarrow> 'a list \<Rightarrow> 'a list" where
  "remove_first P [] = []"
| "remove_first P (x # xs) = (if P x then xs else x # remove_first P xs)"

definition remove_last :: "('a \<Rightarrow> bool) \<Rightarrow> 'a list \<Rightarrow> 'a list" where
  "remove_last P xs = rev (remove_first P (rev xs))"

definition conn_on :: "event_name \<Rightarrow> closure \<Rightarrow> state \<Rightarrow> state" where
  "conn_on ev c st = log (CallOn ev c) (st\<lparr>listeners := listeners st @ [(ev, False, c)]\<rparr>)"

definition conn_once :: "event_name \<Rightarrow> closure \<Rightarrow> state \<Rightarrow> state" where
  "conn_once ev c st = log (CallOnce ev c) (st\<lparr>listeners := listeners st @ [(ev, True, c)]\<rparr>)"

definition conn_removeListener :: "event_name \<Rightarrow> closure \<Rightarrow> state \<Rightarrow> state" where
  "conn_removeListener ev c st =
    log (CallRemoveListener ev c)
      (st\<lparr>listeners := remove_last (\<lambda>(e, one_shot, c'). e = ev \<and> c' = c) (listeners st)\<rparr>)"

definition stream_once :: "closure \<Rightarrow> 'a stream_scheme \<Rightarrow> 'a stream_scheme" where
  "stream_once c s = s\<lparr>data_listeners := data_listeners s @ [(True, c)]\<rparr>"

definition stream_removeListener :: "closure \<Rightarrow> 'a stream_scheme \<Rightarrow> 'a stream_scheme" where
  "stream_removeListener c s =
    s\<lparr>data_listeners := remove_last (\<lambda>(one_shot, c'). c' = c) (data_listeners s)\<rparr>"

definition stream_pause :: "'a stream_scheme \<Rightarrow> 'a stream_scheme" where
  "stream_pause s = s\<lparr>paused := True\<rparr>"

definition stream_pipe :: "'a stream_scheme \<Rightarrow> 'a stream_scheme" where
  "stream_pipe s = s\<lparr>pipes := Suc (pipes s)\<rparr>"

definition upd_channel :: "nat \<Rightarrow> (channel \<Rightarrow> channel) \<Rightarrow> state \<Rightarrow> state" where
  "upd_channel i f st = st\<lparr>channels := (channels st)[i := f (channels st ! i)]\<rparr>"

definition upd_track :: "nat \<Rightarrow> (stream \<Rightarrow> stream) \<Rightarrow> state \<Rightarrow> state" where
  "upd_track i f st = st\<lparr>mediaTracks := (mediaTracks st)[i := f (mediaTracks st ! i)]\<rparr>"

subsection \<open>The closures\<close>

text \<open>\<^verbatim>\<open>this.channelLabel === undefined || this.channelLabel === channel.label\<close>\<close>

definition matchesChannel :: "label option \<Rightarrow> channel \<Rightarrow> bool" where
  "matchesChannel channelLabel ch = (channelLabel = None \<or> channelLabel = Some (label ch))"

text \<open>
  The channel or track an emitter passes to a listener. A position outside the
  collection names no object; no emitter passes one, and a closure given one does nothing.
\<close>

definition channel_arg :: "stream_ref option \<Rightarrow> state \<Rightarrow> nat option" where
  "channel_arg arg st =
    (case arg of
       Some (Channel i) \<Rightarrow> if i < length (channels st) then Some i else None
     | _ \<Rightarrow> None)"

definition track_arg :: "stream_ref option \<Rightarrow> state \<Rightarrow> nat option" where
  "track_arg arg st =
    (case arg of
       Some (Track i) \<Rightarrow> if i < length (mediaTracks st) then Some i else None
     | _ \<Rightarrow> None)"

text \<open>\<^verbatim>\<open>WaitForChannelStep.handle\<close>: \<^verbatim>\<open>channelOpened\<close>.\<close>

definition channelOpened :: "pid \<Rightarrow> label option \<Rightarrow> stream_ref option \<Rightarrow> state \<Rightarrow> state" where
  "channelOpened p channelLabel arg st =
    (case channel_arg arg st of
       None \<Rightarrow> st
     | Some i \<Rightarrow>
        if matchesChannel channelLabel (channels st ! i)
        then promise_resolve p
               (conn_removeListener RemoteChannelOpenEv (ChannelOpened p channelLabel) st)
        else st)"

text \<open>\<^verbatim>\<open>WaitForMessageStep.handle\<close>: \<^verbatim>\<open>listenForMessage\<close> and \<^verbatim>\<open>messageReceived\<close>.\<close>

definition listenForMessage :: "pid \<Rightarrow> label option \<Rightarrow> stream_ref option \<Rightarrow> state \<Rightarrow> state" where
  "listenForMessage p channelLabel arg st =
    (case channel_arg arg st of
       None \<Rightarrow> st
     | Some i \<Rightarrow>
        if matchesChannel channelLabel (channels st ! i)
        then upd_channel i (stream_once (MessageReceived p channelLabel)) st
        else st)"

definition messageReceived :: "pid \<Rightarrow> label option \<Rightarrow> state \<Rightarrow> state" where
  "messageReceived p channelLabel st =
    (let st1 = conn_removeListener ChannelOpenEv (ListenForMessage p channelLabel) st;
         st2 = log GetChannels st1;
         st3 = st2\<lparr>channels :=
                 map (\<lambda>ch. stream_pause (stream_removeListener (MessageReceived p channelLabel) ch))
                   (channels st2)\<rparr>
     in promise_resolve p st3)"

text \<open>\<^verbatim>\<open>WaitForMediaStep.handle\<close>: \<^verbatim>\<open>listenForData\<close> and its \<^verbatim>\<open>messageReceived\<close>.\<close>

definition listenForData :: "pid \<Rightarrow> stream_ref option \<Rightarrow> state \<Rightarrow> state" where
  "listenForData p arg st =
    (case track_arg arg st of
       None \<Rightarrow> st
     | Some i \<Rightarrow> upd_track i (stream_once (MediaReceived p)) st)"

definition mediaReceived :: "pid \<Rightarrow> state \<Rightarrow> state" where
  "mediaReceived p st =
    (let st1 = conn_removeListener TrackOpenEv (ListenForData p) st;
         st2 = log GetMediaTracks st1;
         st3 = st2\<lparr>mediaTracks :=
                 map (\<lambda>t. stream_pause (stream_removeListener (MediaReceived p) t))
                   (mediaTracks st2)\<rparr>
     in promise_resolve p st3)"

text \<open>\<^verbatim>\<open>EchoStep.handle\<close>: \<^verbatim>\<open>echoContent\<close>, \<^verbatim>\<open>stream.pipe(stream)\<close>.\<close>

definition echoContent :: "stream_ref option \<Rightarrow> state \<Rightarrow> state" where
  "echoContent arg st =
    (case arg of
       Some (Channel i) \<Rightarrow> upd_channel i stream_pipe st
     | Some (Track i) \<Rightarrow> upd_track i stream_pipe st
     | None \<Rightarrow> st)"

fun invoke :: "closure \<Rightarrow> stream_ref option \<Rightarrow> state \<Rightarrow> state" where
  "invoke (ChannelOpened p l) arg st = channelOpened p l arg st"
| "invoke (ListenForMessage p l) arg st = listenForMessage p l arg st"
| "invoke (MessageReceived p l) arg st = messageReceived p l st"
| "invoke (ListenForData p) arg st = listenForData p arg st"
| "invoke (MediaReceived p) arg st = mediaReceived p st"
| "invoke (EchoContent p) arg st = echoContent arg st"
| "invoke (ResolveFn p) arg st = promise_resolve p st"
| "invoke (ResolveThunk p) arg st = promise_resolve p st"

definition call :: "closure \<Rightarrow> stream_ref option \<Rightarrow> state \<Rightarrow> state" where
  "call c arg st = invoke c arg (log (Invoked c) st)"

subsection \<open>Emitting\<close>

definition fire :: "event_name \<Rightarrow> stream_ref option \<Rightarrow> state \<Rightarrow> bool \<times> closure \<Rightarrow> state" where
  "fire ev arg st r =
    (case r of (one_shot, c) \<Rightarrow>
       call c arg
         (if one_shot then st\<lparr>listeners := remove1 (ev, True, c) (listeners st)\<rparr> else st))"

definition emit :: "event_name \<Rightarrow> stream_ref option \<Rightarrow> state \<Rightarrow> state" where
  "emit ev arg st =
    foldl (fire ev arg) st (map snd (filter (\<lambda>(e, r). e = ev) (listeners st)))"

definition stream_listeners :: "stream_ref \<Rightarrow> state \<Rightarrow> (bool \<times> closure) list" where
  "stream_listeners r st =
    (case r of
       Channel i \<Rightarrow> if i < length (channels st) then data_listeners (channels st ! i) else []
     | Track i \<Rightarrow> if i < length (mediaTracks st) then data_listeners (mediaTracks st ! i) else [])"

definition unregister :: "stream_ref \<Rightarrow> bool \<times> closure \<Rightarrow> state \<Rightarrow> state" where
  "unregister r x st =
    (case r of
       Channel i \<Rightarrow> upd_channel i (\<lambda>s. s\<lparr>data_listeners := remove1 x (data_listeners s)\<rparr>) st
     | Track i \<Rightarrow> upd_track i (\<lambda>s. s\<lparr>data_listeners := remove1 x (data_listeners s)\<rparr>) st)"

definition fire_data :: "stream_ref \<Rightarrow> state \<Rightarrow> bool \<times> closure \<Rightarrow> state" where
  "fire_data r st x =
    (case x of (one_shot, c) \<Rightarrow>
       call c (Some r) (if one_shot then unregister r (True, c) st else st))"

definition emit_data :: "stream_ref \<Rightarrow> state \<Rightarrow> state" where
  "emit_data r st = foldl (fire_data r) st (stream_listeners r st)"

section \<open>What the connection does to a step\<close>

text \<open>
  Modelled from the spec: \<^verbatim>\<open>MockRTCConnection\<close> and the two stream classes are not among
  the source files. Section 3 of the specification gives the connection ``a mutable,
  append-only collection of opened data channels, a mutable, append-only collection of
  opened media tracks, and a lifecycle event stream (channel-opened,
  remote-channel-opened, track-opened, remote-track-opened, connection-closed)''. So a
  channel or track that opens is appended to its collection (and to the remote one if
  the remote peer opened it) and announced by its events; data arriving on a stream is
  an emission of \<^verbatim>\<open>'data'\<close>; the transport acknowledges the writes of a channel in order,
  with or without an error; closing emits \<^verbatim>\<open>'connection-closed'\<close>. Data is delivered to the
  listeners whether or not the stream was paused, which covers both readings of the
  pause.
\<close>

datatype event =
    ChannelOpen label bool
  | TrackOpen bool
  | ChannelData nat
  | TrackData nat
  | WriteDone nat "js_error option"
  | ConnectionClosed

definition new_channel :: "label \<Rightarrow> channel" where
  "new_channel l =
    \<lparr>data_listeners = [], paused = False, pipes = 0,
     label = l, writes = [], write_callbacks = []\<rparr>"

definition new_track :: stream where
  "new_track = \<lparr>data_listeners = [], paused = False, pipes = 0\<rparr>"

text \<open>
  The callback that \<^verbatim>\<open>SendStep.handle\<close> passes to \<^verbatim>\<open>channel.write\<close>:
  \<^verbatim>\<open>if (error) reject(error); else resolve();\<close>
\<close>

definition write_callback :: "pid \<Rightarrow> js_error option \<Rightarrow> state \<Rightarrow> state" where
  "write_callback p error st =
    (case error of
       Some e \<Rightarrow> promise_reject p (WriteFailed e) st
     | None \<Rightarrow> promise_resolve p st)"

definition write_done :: "nat \<Rightarrow> js_error option \<Rightarrow> state \<Rightarrow> state" where
  "write_done i error st =
    (if i < length (channels st) then
       (case write_callbacks (channels st ! i) of
          [] \<Rightarrow> st
        | p # ps \<Rightarrow> write_callback p error (upd_channel i (\<lambda>ch. ch\<lparr>write_callbacks := ps\<rparr>) st))
     else st)"

definition add_channel :: "label \<Rightarrow> bool \<Rightarrow> state \<Rightarrow> state" where
  "add_channel l remote st =
    st\<lparr>channels := channels st @ [new_channel l],
       remoteChannels :=
         (if remote then remoteChannels st @ [length (channels st)] else remoteChannels st)\<rparr>"

definition add_track :: "bool \<Rightarrow> state \<Rightarrow> state" where
  "add_track remote st =
    st\<lparr>mediaTracks := mediaTracks st @ [new_track],
       remoteMediaTracks :=
         (if remote then remoteMediaTracks st @ [length (mediaTracks st)]
          else remoteMediaTracks st)\<rparr>"

fun step :: "event \<Rightarrow> state \<Rightarrow> state" where
  "step (ChannelOpen l remote) st =
    (let i = length (channels st);
         st1 = emit ChannelOpenEv (Some (Channel i)) (add_channel l remote st)
     in if remote then emit RemoteChannelOpenEv (Some (Channel i)) st1 else st1)"
| "step (TrackOpen remote) st =
    (let i = length (mediaTracks st);
         st1 = emit TrackOpenEv (Some (Track i)) (add_track remote st)
     in if remote then emit RemoteTrackOpenEv (Some (Track i)) st1 else st1)"
| "step (ChannelData i) st = emit_data (Channel i) st"
| "step (TrackData i) st = emit_data (Track i) st"
| "step (WriteDone i error) st = write_done i error st"
| "step ConnectionClosed st = emit ConnectionClosedEv None st"

definition run :: "event list \<Rightarrow> state \<Rightarrow> state" where
  "run es st = foldl (\<lambda>s e. step e s) st es"

definition new_connection :: state where
  "new_connection =
    \<lparr>channels = [], remoteChannels = [], mediaTracks = [], remoteMediaTracks = [],
     listeners = [], proxy_targets = [], promises = [], rtc_connections = [], trace = []\<rparr>"

section \<open>The steps\<close>

text \<open>
  Each \<^verbatim>\<open>handle\<close> returns the promise of its call, allocated on entry, and the state it
  leaves. The promise an \<^verbatim>\<open>async\<close> method returns settles as the promise it returns or
  awaits last does, so the two are one entry of the table.
\<close>

definition WaitForChannelStep_handle :: "label option \<Rightarrow> state \<Rightarrow> pid \<times> state" where
  "WaitForChannelStep_handle channelLabel st =
    (let p = length (promises st);
         st1 = alloc_promise st;
         st2 = conn_on RemoteChannelOpenEv (ChannelOpened p channelLabel) st1;
         st3 = log GetRemoteChannels st2
     in (p, foldl (\<lambda>s i. call (ChannelOpened p channelLabel) (Some (Channel i)) s)
              st3 (remoteChannels st3)))"

definition WaitForMessageStep_handle :: "label option \<Rightarrow> state \<Rightarrow> pid \<times> state" where
  "WaitForMessageStep_handle channelLabel st =
    (let p = length (promises st);
         st1 = alloc_promise st;
         st2 = conn_on ChannelOpenEv (ListenForMessage p channelLabel) st1;
         st3 = log GetChannels st2
     in (p, foldl (\<lambda>s i. call (ListenForMessage p channelLabel) (Some (Channel i)) s)
              st3 [0..<length (channels st3)]))"

definition WaitForTrackStep_handle :: "state \<Rightarrow> pid \<times> state" where
  "WaitForTrackStep_handle st =
    (let p = length (promises st);
         st1 = alloc_promise st;
         st2 = log GetRemoteMediaTracks st1
     in (p, if length (remoteMediaTracks st2) \<noteq> 0 then promise_resolve p st2
            else conn_once RemoteTrackOpenEv (ResolveThunk p) st2))"

definition WaitForMediaStep_handle :: "state \<Rightarrow> pid \<times> state" where
  "WaitForMediaStep_handle st =
    (let p = length (promises st);
         st1 = alloc_promise st;
         st2 = conn_on TrackOpenEv (ListenForData p) st1;
         st3 = log GetMediaTracks st2
     in (p, foldl (\<lambda>s i. call (ListenForData p) (Some (Track i)) s)
              st3 [0..<length (mediaTracks st3)]))"

text \<open>
  \<^verbatim>\<open>SendStep.handle\<close>: one promise and one write for each matching channel, in order,
  then \<^verbatim>\<open>Promise.all\<close> of these promises, all still pending when it is called (a write is
  acknowledged by a later event).
\<close>

definition channel_write :: "nat \<Rightarrow> message \<Rightarrow> pid \<Rightarrow> state \<Rightarrow> state" where
  "channel_write i m p st =
    upd_channel i (\<lambda>ch. ch\<lparr>writes := writes ch @ [m],
                            write_callbacks := write_callbacks ch @ [p]\<rparr>) st"

fun write_each :: "message \<Rightarrow> nat list \<Rightarrow> state \<Rightarrow> pid list \<times> state" where
  "write_each m [] st = ([], st)"
| "write_each m (i # is) st =
    (let p = length (promises st);
         st1 = channel_write i m p (alloc_promise st);
         r = write_each m is st1
     in (p # fst r, snd r))"

definition set_parent :: "pid \<Rightarrow> pid list \<Rightarrow> promise list \<Rightarrow> promise list" where
  "set_parent q elems ps =
    map (\<lambda>k. if k \<in> set elems then (ps ! k)\<lparr>parent := Some q\<rparr> else ps ! k) [0..<length ps]"

definition promise_all :: "pid list \<Rightarrow> state \<Rightarrow> pid \<times> state" where
  "promise_all elems st =
    (let q = length (promises st)
     in (q, st\<lparr>promises :=
               set_parent q elems (promises st)
               @ [\<lparr>pstate = (if elems = [] then Fulfilled else Pending),
                   parent = None, remaining = length elems\<rparr>]\<rparr>))"

definition SendStep_handle :: "label option \<Rightarrow> message \<Rightarrow> state \<Rightarrow> pid \<times> state" where
  "SendStep_handle channelLabel m st =
    (let st1 = log GetChannels st;
         matching = filter (\<lambda>i. matchesChannel channelLabel (channels st1 ! i))
                      [0..<length (channels st1)];
         r = write_each m matching st1
     in promise_all (fst r) (snd r))"

definition EchoStep_handle :: "state \<Rightarrow> pid \<times> state" where
  "EchoStep_handle st =
    (let p = length (promises st);
         st1 = alloc_promise st;
         st2 = conn_on ChannelOpenEv (EchoContent p) st1;
         st3 = conn_on TrackOpenEv (EchoContent p) st2;
         st4 = log GetChannels st3;
         st5 = foldl (\<lambda>s i. call (EchoContent p) (Some (Channel i)) s)
                 st4 [0..<length (channels st4)];
         st6 = log GetMediaTracks st5;
         st7 = foldl (\<lambda>s i. call (EchoContent p) (Some (Track i)) s)
                 st6 [0..<length (mediaTracks st6)]
     in (p, conn_on ConnectionClosedEv (ResolveFn p) st7))"

subsection \<open>The proxy steps\<close>

text \<open>
  An answer source is an asynchronous function of the offer that may reject and may
  change the world it runs in (the peer of the test, for one): a function of the offer
  and that world, whatever its type \<open>'w\<close>. In \<^verbatim>\<open>PeerProxyStep_handle\<close> and
  \<^verbatim>\<open>DynamicProxyStep_handle\<close> an \<^verbatim>\<open>await\<close> is a call that hands back the outcome, with
  nothing happening on the connection meanwhile; \<^verbatim>\<open>PeerProxyStep_handle_awaiting\<close> and
  \<^verbatim>\<open>DynamicProxyStep_handle_awaiting\<close>, further down, let events of the connection
  arrive while the step awaits.
\<close>

type_synonym 'w answer_source = "session_description \<Rightarrow> 'w \<Rightarrow> (js_error + session_description) \<times> 'w"

text \<open>
  \<^verbatim>\<open>RTCPeerConnection\<close> is the browser's: its three methods are parameters, each giving an
  outcome and the world it leaves.
\<close>

record 'w rtc_peer_connection =
  setRemoteDescription :: "session_description \<Rightarrow> 'w \<Rightarrow> js_error option \<times> 'w"
  createAnswer :: "'w \<Rightarrow> (js_error + session_description) \<times> 'w"
  setLocalDescription :: "session_description \<Rightarrow> 'w \<Rightarrow> js_error option \<times> 'w"

datatype 'w connection_target =
    TargetFunction "'w answer_source"
  | TargetPeer "'w rtc_peer_connection"

record proxy_step =
  externalConnections :: "nat list"

record 'w peer_proxy_step = proxy_step +
  getAnswer :: "'w answer_source"

text \<open>The constructor of \<^verbatim>\<open>PeerProxyStepDefinition\<close>, which \<^verbatim>\<open>PeerProxyStep\<close> inherits.\<close>

definition peer_answer :: "'w rtc_peer_connection \<Rightarrow> 'w answer_source" where
  "peer_answer connectionTarget offer w =
    (case setRemoteDescription connectionTarget offer w of
       (Some e, w1) \<Rightarrow> (Inl e, w1)
     | (None, w1) \<Rightarrow>
        (case createAnswer connectionTarget w1 of
           (Inl e, w2) \<Rightarrow> (Inl e, w2)
         | (Inr answer, w2) \<Rightarrow>
            (case setLocalDescription connectionTarget answer w2 of
               (Some e, w3) \<Rightarrow> (Inl e, w3)
             | (None, w3) \<Rightarrow> (Inr answer, w3))))"

definition new_PeerProxyStep :: "'w connection_target \<Rightarrow> 'w peer_proxy_step" where
  "new_PeerProxyStep connectionTarget =
    \<lparr>externalConnections = [],
     getAnswer = (case connectionTarget of
                    TargetFunction f \<Rightarrow> f
                  | TargetPeer pc \<Rightarrow> peer_answer pc)\<rparr>"

definition new_RTCConnection :: rtc_connection where
  "new_RTCConnection = \<lparr>remoteDescription = None, rtc_closed = False\<rparr>"

definition rtc_setRemoteDescription :: "nat \<Rightarrow> session_description \<Rightarrow> state \<Rightarrow> state" where
  "rtc_setRemoteDescription i answer st =
    st\<lparr>rtc_connections :=
         (rtc_connections st)[i := (rtc_connections st ! i)\<lparr>remoteDescription := Some answer\<rparr>]\<rparr>"

definition rtc_close :: "nat \<Rightarrow> state \<Rightarrow> state" where
  "rtc_close i st =
    st\<lparr>rtc_connections := (rtc_connections st)[i := (rtc_connections st ! i)\<lparr>rtc_closed := True\<rparr>]\<rparr>"

definition proxyTrafficTo :: "nat \<Rightarrow> state \<Rightarrow> state" where
  "proxyTrafficTo i st = log (CallProxyTrafficTo i) (st\<lparr>proxy_targets := proxy_targets st @ [i]\<rparr>)"

text \<open>
  \<^verbatim>\<open>PeerProxyStep.handle\<close>. The parameter \<open>getLocalDescription\<close> is the method of the
  \<^verbatim>\<open>RTCConnection\<close> class, which is not among the source files: the outcome of the call on
  the connection at the position given.
\<close>

definition PeerProxyStep_handle ::
  "(nat \<Rightarrow> js_error + session_description) \<Rightarrow> 'w peer_proxy_step \<Rightarrow> state \<Rightarrow> 'w
    \<Rightarrow> pid \<times> 'w peer_proxy_step \<times> state \<times> 'w" where
  "PeerProxyStep_handle getLocalDescription this st w =
    (let p = length (promises st);
         st1 = alloc_promise st;
         externalConn = length (rtc_connections st1);
         st2 = st1\<lparr>rtc_connections := rtc_connections st1 @ [new_RTCConnection]\<rparr>;
         this1 = this\<lparr>externalConnections := externalConnections this @ [externalConn]\<rparr>
     in case getLocalDescription externalConn of
          Inl e \<Rightarrow> (p, this1, promise_reject p (TransportFailed e) st2, w)
        | Inr externalOffer \<Rightarrow>
           (case getAnswer this1 externalOffer w of
              (Inl e, w1) \<Rightarrow> (p, this1, promise_reject p (NegotiationFailed e) st2, w1)
            | (Inr answer, w1) \<Rightarrow>
               (let st3 = rtc_setRemoteDescription externalConn answer st2;
                    st4 = proxyTrafficTo externalConn st3
                in (p, this1, conn_on ConnectionClosedEv (ResolveFn p) st4, w1))))"

definition PeerProxyStep_dispose :: "'w peer_proxy_step \<Rightarrow> state \<Rightarrow> state" where
  "PeerProxyStep_dispose this st = foldl (\<lambda>s conn. rtc_close conn s) st (externalConnections this)"

text \<open>
  \<^verbatim>\<open>DynamicProxyStep\<close>. The parameter \<open>proxyResult\<close> is the outcome of the connection's
  \<^verbatim>\<open>proxyTrafficToExternalConnection\<close>, a method of the missing \<^verbatim>\<open>MockRTCConnection\<close>:
  the error it rejects with, if it does. Only the call is recorded.
\<close>

definition new_DynamicProxyStep :: proxy_step where
  "new_DynamicProxyStep = \<lparr>externalConnections = []\<rparr>"

definition DynamicProxyStep_handle ::
  "js_error option \<Rightarrow> proxy_step \<Rightarrow> state \<Rightarrow> pid \<times> proxy_step \<times> state" where
  "DynamicProxyStep_handle proxyResult this st =
    (let p = length (promises st);
         st1 = alloc_promise st;
         st2 = log CallProxyTrafficToExternalConnection st1
     in case proxyResult of
          Some e \<Rightarrow> (p, this, promise_reject p (TransportFailed e) st2)
        | None \<Rightarrow> (p, this, conn_on ConnectionClosedEv (ResolveFn p) st2))"

definition DynamicProxyStep_dispose :: "proxy_step \<Rightarrow> state \<Rightarrow> state" where
  "DynamicProxyStep_dispose this st = foldl (\<lambda>s conn. rtc_close conn s) st (externalConnections this)"

subsection \<open>Serializing a peer proxy step\<close>

text \<open>
  Modelled from the spec: \<^verbatim>\<open>ClientServerChannel\<close> belongs to the administration library
  and is not among the source files. Section 4.3 of the specification: ``the definition
  side registers a handler \<^verbatim>\<open>(offer) -> answer\<close> against a named channel; the remote side
  can issue a \<^verbatim>\<open>{offer}\<close> request and receive \<^verbatim>\<open>{answer}\<close> regardless of which process
  physically holds the real peer object. [...] if the remote handler throws or times out,
  the request fails''. The channel holds the handler registered by \<^verbatim>\<open>onRequest\<close>; the
  process that deserializes sees the channel together with the world of the process that
  serialized, in which the handler runs. A request with no handler times out.
\<close>

record request_message =
  offer :: session_description

record response_message =
  answer :: session_description

record 'c client_server_channel =
  request_handler :: "(request_message \<Rightarrow> 'c \<Rightarrow> (js_error + response_message) \<times> 'c) option"

record 'c remote =
  client :: 'c
  dispatch :: "'c client_server_channel"

definition onRequest ::
  "(request_message \<Rightarrow> 'c \<Rightarrow> (js_error + response_message) \<times> 'c)
    \<Rightarrow> 'c client_server_channel \<Rightarrow> 'c client_server_channel" where
  "onRequest h channel = channel\<lparr>request_handler := Some h\<rparr>"

definition request :: "request_message \<Rightarrow> 'c remote \<Rightarrow> (js_error + response_message) \<times> 'c remote" where
  "request msg w =
    (case request_handler (dispatch w) of
       None \<Rightarrow> (Inl (Error ''request timed out''), w)
     | Some h \<Rightarrow> (case h msg (client w) of (r, c1) \<Rightarrow> (r, w\<lparr>client := c1\<rparr>)))"

record serialized_step =
  wire_type :: tag

text \<open>\<^verbatim>\<open>PeerProxyStep.serialize\<close> (the same text as \<^verbatim>\<open>PeerProxyStepDefinition.serialize\<close>).\<close>

definition PeerProxyStep_serialize ::
  "'c peer_proxy_step \<Rightarrow> 'c client_server_channel \<Rightarrow> serialized_step \<times> 'c client_server_channel" where
  "PeerProxyStep_serialize this channel =
    (\<lparr>wire_type = step_type PeerProxyStep\<rparr>,
     onRequest
       (\<lambda>msg c. case getAnswer this (offer msg) c of
                   (Inl e, c1) \<Rightarrow> (Inl e, c1)
                 | (Inr a, c1) \<Rightarrow> (Inr \<lparr>answer = a\<rparr>, c1))
       channel)"

text \<open>
  \<^verbatim>\<open>PeerProxyStep.deserialize\<close>: a step whose answer source sends the offer over the
  channel and returns the \<^verbatim>\<open>answer\<close> field of the response.
\<close>

definition PeerProxyStep_deserialize :: "serialized_step \<Rightarrow> ('c remote) peer_proxy_step" where
  "PeerProxyStep_deserialize data =
    new_PeerProxyStep
      (TargetFunction
        (\<lambda>offer w. case request \<lparr>offer = offer\<rparr> w of
                      (Inl e, w1) \<Rightarrow> (Inl e, w1)
                    | (Inr response, w1) \<Rightarrow> (Inr (answer response), w1)))"

section \<open>Notions used to state the properties\<close>

text \<open>
  A promise that is fulfilled, or pending and the element of no aggregate (as a promise
  just allocated is).
\<close>

definition done_or_fresh :: "pid \<Rightarrow> state \<Rightarrow> bool" where
  "done_or_fresh p s =
    (p < length (promises s)
     \<and> (pstate (promises s ! p) = Fulfilled
        \<or> (pstate (promises s ! p) = Pending \<and> parent (promises s ! p) = None)))"

text \<open>\<open>a\<close> occurs in \<open>xs\<close> before the first \<open>b\<close>.\<close>

definition precedes :: "'a \<Rightarrow> 'a \<Rightarrow> 'a list \<Rightarrow> bool" where
  "precedes a b xs = (a \<in> set (takeWhile (\<lambda>x. x \<noteq> b) xs))"

text \<open>The entries that the trace of \<open>st'\<close> has beyond the trace of \<open>st\<close>.\<close>

definition new_entries :: "state \<Rightarrow> state \<Rightarrow> trace_entry list" where
  "new_entries st st' = drop (length (trace st)) (trace st')"

text \<open>A connection on which the remote peer has opened the channel ``chat'' and a track.\<close>

definition chat_and_video :: state where
  "chat_and_video =
    new_connection\<lparr>channels := [new_channel ''chat''], remoteChannels := [0],
                   mediaTracks := [new_track], remoteMediaTracks := [0]\<rparr>"

text \<open>Every channel of the connection has had \<^verbatim>\<open>pause()\<close> called on it.\<close>

definition all_paused :: "state \<Rightarrow> bool" where
  "all_paused st = list_all paused (channels st)"

text \<open>A connection with two open channels, ``chat'' and ``log''.\<close>

definition chat_and_log :: state where
  "chat_and_log = new_connection\<lparr>channels := [new_channel ''chat'', new_channel ''log'']\<rparr>"

text \<open>
  What can be done to a dynamic proxy step: its two methods, \<^verbatim>\<open>handle\<close> (with the outcome
  of the connection's proxying call) and \<^verbatim>\<open>dispose\<close>, in any order and number.
\<close>

datatype dynamic_op = Handle "js_error option" | Dispose

fun apply_dynamic :: "dynamic_op \<Rightarrow> proxy_step \<times> state \<Rightarrow> proxy_step \<times> state" where
  "apply_dynamic (Handle proxyResult) (this, st) = snd (DynamicProxyStep_handle proxyResult this st)"
| "apply_dynamic Dispose (this, st) = (this, DynamicProxyStep_dispose this st)"

definition dynamic_ops :: "dynamic_op list \<Rightarrow> proxy_step \<times> state \<Rightarrow> proxy_step \<times> state" where
  "dynamic_ops os x = foldl (\<lambda>x a. apply_dynamic a x) x os"

text \<open>An answer source that always throws, and an offer.\<close>

definition no_answer :: "unit answer_source" where
  "no_answer ofr w = (Inl (Error ''no answer''), w)"

definition an_offer :: session_description where
  "an_offer = \<lparr>sd_type = ''offer'', sdp = ''v=0''\<rparr>"

text \<open>The registrations on the connection whose closure belongs to the promise \<open>p\<close>.\<close>

definition conn_owned :: "pid \<Rightarrow> state \<Rightarrow> (event_name \<times> bool \<times> closure) list" where
  "conn_owned p st = filter (\<lambda>(e, one_shot, c). closure_pid c = p) (listeners st)"

text \<open>The \<^verbatim>\<open>'data'\<close> registrations on a stream whose closure belongs to \<open>p\<close>.\<close>

definition data_owned :: "pid \<Rightarrow> 'a stream_scheme \<Rightarrow> (bool \<times> closure) list" where
  "data_owned p s = filter (\<lambda>(one_shot, c). closure_pid c = p) (data_listeners s)"

text \<open>Everything registered anywhere for \<open>p\<close>: on the connection, on each channel, on each track.\<close>

definition registrations ::
  "pid \<Rightarrow> state \<Rightarrow> (event_name \<times> bool \<times> closure) list \<times> (bool \<times> closure) list list \<times> (bool \<times> closure) list list" where
  "registrations p st =
    (conn_owned p st, map (data_owned p) (channels st), map (data_owned p) (mediaTracks st))"

text \<open>The calls of closures of \<open>p\<close> in a trace.\<close>

definition invocations :: "pid \<Rightarrow> trace_entry list \<Rightarrow> trace_entry list" where
  "invocations p tr = filter (\<lambda>x. case x of Invoked c \<Rightarrow> closure_pid c = p | _ \<Rightarrow> False) tr"

text \<open>No write callback settles \<open>p\<close> and \<open>p\<close> is the aggregate of no promise: only closures of \<open>p\<close> can settle it.\<close>

definition untouchable :: "pid \<Rightarrow> state \<Rightarrow> bool" where
  "untouchable p st =
    (p \<notin> set (concat (map write_callbacks (channels st)))
     \<and> Some p \<notin> set (map parent (promises st)))"

text \<open>The parts of the state that no closure changes.\<close>

definition skeleton ::
  "state \<Rightarrow> label list \<times> pid list list \<times> nat \<times> pid option list \<times> nat list \<times> nat list
     \<times> rtc_connection list \<times> nat list" where
  "skeleton st =
    (map label (channels st), map write_callbacks (channels st), length (mediaTracks st),
     map parent (promises st), remoteChannels st, remoteMediaTracks st, rtc_connections st,
     proxy_targets st)"

text \<open>The promises settled in the first table are in the second as they were.\<close>

definition settled_kept :: "promise list \<Rightarrow> promise list \<Rightarrow> bool" where
  "settled_kept ps ps' =
    (length ps' = length ps
     \<and> (\<forall>q < length ps. pstate (ps ! q) \<noteq> Pending \<longrightarrow> pstate (ps' ! q) = pstate (ps ! q)))"

text \<open>
  Going from \<open>s\<close> to \<open>s'\<close> changes nothing that concerns \<open>p\<close>: its registrations, its
  promise (when only its closures can settle it), and the promises already settled.
\<close>

definition unobserved :: "pid \<Rightarrow> state \<Rightarrow> state \<Rightarrow> bool" where
  "unobserved p s s' =
    (registrations p s' = registrations p s
     \<and> settled_kept (promises s) (promises s')
     \<and> (untouchable p s \<longrightarrow> untouchable p s' \<and> promises s' ! p = promises s ! p))"

text \<open>
  A registration whose firing cannot matter to \<open>p\<close>: the closure of another promise, or
  the echo closure of \<open>p\<close> registered by \<^verbatim>\<open>on\<close>.
\<close>

definition harmless :: "pid \<Rightarrow> bool \<times> closure \<Rightarrow> bool" where
  "harmless p x = (closure_pid (snd x) \<noteq> p \<or> x = (False, EchoContent p))"

text \<open>No channel and no track carries a \<^verbatim>\<open>'data'\<close> listener of \<open>p\<close>.\<close>

definition data_quiet :: "pid \<Rightarrow> state \<Rightarrow> bool" where
  "data_quiet p st =
    (list_all (\<lambda>x. x = []) (fst (snd (registrations p st)))
     \<and> list_all (\<lambda>x. x = []) (snd (snd (registrations p st))))"

text \<open>Nothing in the state refers to the promise \<open>p\<close>: no registration, no write callback, no aggregate. So it is for the promise about to be allocated in every state that steps and events produce from a new connection.\<close>

definition fresh :: "pid \<Rightarrow> state \<Rightarrow> bool" where
  "fresh p st = (conn_owned p st = [] \<and> data_quiet p st \<and> untouchable p st)"

text \<open>The state in which a perpetual step waits: its promise \<open>p\<close> is pending and only its own closures can settle it; \<^verbatim>\<open>resolve\<close> is registered for \<^verbatim>\<open>'connection-closed'\<close>; every other registration of \<open>p\<close> on the connection is the echo closure; no stream carries a listener of \<open>p\<close>.\<close>

definition parked :: "pid \<Rightarrow> state \<Rightarrow> bool" where
  "parked p st =
    (p < length (promises st) \<and> untouchable p st
     \<and> pstate (promises st ! p) = Pending \<and> parent (promises st ! p) = None
     \<and> (ConnectionClosedEv, False, ResolveFn p) \<in> set (conn_owned p st)
     \<and> list_all (\<lambda>x. x = (ConnectionClosedEv, False, ResolveFn p) \<or> snd x = (False, EchoContent p))
          (conn_owned p st)
     \<and> data_quiet p st)"

text \<open>The promise \<open>p\<close> is pending after the events \<open>es\<close>, fulfilled by a closure of the connection right after them, and still fulfilled after any further events \<open>es'\<close>.\<close>

definition perpetual :: "pid \<Rightarrow> state \<Rightarrow> event list \<Rightarrow> event list \<Rightarrow> bool" where
  "perpetual p st es es' =
    (promise_state_of p (run es st) = Pending
     \<and> promise_state_of p (run (es @ [ConnectionClosed]) st) = Fulfilled
     \<and> promise_state_of p (run (es @ ConnectionClosed # es') st) = Fulfilled)"

text \<open>The promise \<open>p\<close> is pending or fulfilled, the element of no aggregate, and only its own closures can settle it.\<close>

definition settles_only_by_own :: "pid \<Rightarrow> state \<Rightarrow> bool" where
  "settles_only_by_own p s =
    (p < length (promises s) \<and> untouchable p s \<and> parent (promises s ! p) = None
     \<and> (pstate (promises s ! p) = Pending \<or> pstate (promises s ! p) = Fulfilled))"

text \<open>A pending promise \<open>p\<close> that only its own closures can settle, with exactly the registrations \<open>K\<close> on the connection and none on the streams.\<close>

definition prepared :: "pid \<Rightarrow> state \<Rightarrow> (event_name \<times> bool \<times> closure) list \<Rightarrow> bool" where
  "prepared p st K =
    (p < length (promises st) \<and> untouchable p st
     \<and> pstate (promises st ! p) = Pending \<and> parent (promises st ! p) = None
     \<and> conn_owned p st = K \<and> data_quiet p st)"

text \<open>An answer source that answers every offer.\<close>

definition answering :: "unit answer_source" where
  "answering ofr w = (Inr (ofr\<lparr>sd_type := ''answer''\<rparr>), w)"

text \<open>The state in which a message wait with the promise \<open>p\<close> and the label filter \<open>l\<close> waits: the promise is pending and only its own closures can settle it; \<^verbatim>\<open>listenForMessage\<close> is registered once for \<^verbatim>\<open>'channel-open'\<close>; a channel carries no listener of \<open>p\<close> or \<^verbatim>\<open>messageReceived\<close> once; no track carries a listener of \<open>p\<close>.\<close>

definition waiting_message :: "pid \<Rightarrow> label option \<Rightarrow> state \<Rightarrow> bool" where
  "waiting_message p l st =
    (p < length (promises st) \<and> untouchable p st
     \<and> pstate (promises st ! p) = Pending \<and> parent (promises st ! p) = None
     \<and> conn_owned p st = [(ChannelOpenEv, False, ListenForMessage p l)]
     \<and> list_all (\<lambda>x. x = [] \<or> x = [(True, MessageReceived p l)]) (map (data_owned p) (channels st))
     \<and> list_all (\<lambda>x. x = []) (map (data_owned p) (mediaTracks st)))"

text \<open>The promise \<open>p\<close> is fulfilled and no closure of \<open>p\<close> is registered anywhere.\<close>

definition finished :: "pid \<Rightarrow> state \<Rightarrow> bool" where
  "finished p st =
    (p < length (promises st) \<and> pstate (promises st ! p) = Fulfilled
     \<and> conn_owned p st = [] \<and> data_quiet p st)"

text \<open>\<open>p\<close> is finished and the calls of its closures so far are \<open>t\<close>.\<close>

definition silent :: "pid \<Rightarrow> trace_entry list \<Rightarrow> state \<Rightarrow> bool" where
  "silent p t st = (finished p st \<and> invocations p (trace st) = t)"

text \<open>The state in which a media wait with the promise \<open>p\<close> waits: as for a message wait, with \<^verbatim>\<open>listenForData\<close> registered once for \<^verbatim>\<open>'track-open'\<close> and its \<^verbatim>\<open>messageReceived\<close> at most once on each track.\<close>

definition waiting_media :: "pid \<Rightarrow> state \<Rightarrow> bool" where
  "waiting_media p st =
    (p < length (promises st) \<and> untouchable p st
     \<and> pstate (promises st ! p) = Pending \<and> parent (promises st ! p) = None
     \<and> conn_owned p st = [(TrackOpenEv, False, ListenForData p)]
     \<and> list_all (\<lambda>x. x = []) (map (data_owned p) (channels st))
     \<and> list_all (\<lambda>x. x = [] \<or> x = [(True, MediaReceived p)]) (map (data_owned p) (mediaTracks st)))"

text \<open>In \<open>st\<close> no closure of \<open>p\<close> is registered on the connection, on a channel or on a track; after the events \<open>es\<close> none is registered either, none has been called meanwhile, and the promise is fulfilled.\<close>

definition fired_for_good :: "pid \<Rightarrow> state \<Rightarrow> event list \<Rightarrow> bool" where
  "fired_for_good p st es =
    (conn_owned p st = [] \<and> data_quiet p st
     \<and> conn_owned p (run es st) = [] \<and> data_quiet p (run es st)
     \<and> invocations p (trace (run es st)) = invocations p (trace st)
     \<and> promise_state_of p (run es st) = Fulfilled)"

text \<open>\<^verbatim>\<open>PeerProxyStep.handle\<close> on a connection that lives on while the step awaits: the events \<open>during1\<close>
  are dispatched while it awaits \<^verbatim>\<open>externalConn.getLocalDescription()\<close>, the events \<open>during2\<close>
  while it awaits \<^verbatim>\<open>this.getAnswer(externalOffer)\<close>. What the step itself does is what
  \<^verbatim>\<open>PeerProxyStep_handle\<close> does, in the same order: the listener for \<^verbatim>\<open>'connection-closed'\<close> is
  registered after both awaits. When the first await rejects the second never starts, and
  \<open>during2\<close> is not dispatched.\<close>

definition PeerProxyStep_handle_awaiting ::
  "event list \<Rightarrow> event list \<Rightarrow> (nat \<Rightarrow> js_error + session_description)
    \<Rightarrow> 'w peer_proxy_step \<Rightarrow> state \<Rightarrow> 'w \<Rightarrow> pid \<times> 'w peer_proxy_step \<times> state \<times> 'w" where
  "PeerProxyStep_handle_awaiting during1 during2 getLocalDescription this st w =
    (let p = length (promises st);
         st1 = alloc_promise st;
         externalConn = length (rtc_connections st1);
         st2 = st1\<lparr>rtc_connections := rtc_connections st1 @ [new_RTCConnection]\<rparr>;
         this1 = this\<lparr>externalConnections := externalConnections this @ [externalConn]\<rparr>;
         st3 = run during1 st2
     in case getLocalDescription externalConn of
          Inl e \<Rightarrow> (p, this1, promise_reject p (TransportFailed e) st3, w)
        | Inr externalOffer \<Rightarrow>
           (case getAnswer this1 externalOffer w of
              (Inl e, w1) \<Rightarrow>
                (p, this1, promise_reject p (NegotiationFailed e) (run during2 st3), w1)
            | (Inr remoteAnswer, w1) \<Rightarrow>
               (let st4 = run during2 st3;
                    st5 = rtc_setRemoteDescription externalConn remoteAnswer st4;
                    st6 = proxyTrafficTo externalConn st5
                in (p, this1, conn_on ConnectionClosedEv (ResolveFn p) st6, w1))))"

text \<open>\<^verbatim>\<open>DynamicProxyStep.handle\<close> on a connection that lives on while the step awaits: the events
  \<open>during\<close> are dispatched while it awaits \<^verbatim>\<open>connection.proxyTrafficToExternalConnection()\<close>,
  before the listener for \<^verbatim>\<open>'connection-closed'\<close> is registered.\<close>

definition DynamicProxyStep_handle_awaiting ::
  "event list \<Rightarrow> js_error option \<Rightarrow> proxy_step \<Rightarrow> state \<Rightarrow> pid \<times> proxy_step \<times> state" where
  "DynamicProxyStep_handle_awaiting during proxyResult this st =
    (let p = length (promises st);
         st1 = alloc_promise st;
         st2 = log CallProxyTrafficToExternalConnection st1;
         st3 = run during st2
     in case proxyResult of
          Some e \<Rightarrow> (p, this, promise_reject p (TransportFailed e) st3)
        | None \<Rightarrow> (p, this, conn_on ConnectionClosedEv (ResolveFn p) st3))"

text \<open>The promise \<open>p\<close> of a step is fulfilled in the state that the events \<open>es\<close> lead to from \<open>st\<close>
  exactly when the connection has closed since \<^verbatim>\<open>handle\<close> was called: among the events
  \<open>before\<close>, dispatched while \<^verbatim>\<open>handle\<close> was awaiting its set-up, or among \<open>es\<close>, dispatched
  after it.\<close>

definition completes_exactly_on_close :: "pid \<Rightarrow> state \<Rightarrow> event list \<Rightarrow> event list \<Rightarrow> bool" where
  "completes_exactly_on_close p st before es =
    ((promise_state_of p (run es st) = Fulfilled) = (ConnectionClosed \<in> set (before @ es)))"

text \<open>A \<^verbatim>\<open>getLocalDescription\<close> that gives the offer \<^verbatim>\<open>an_offer\<close> on every external connection.\<close>

definition offers :: "nat \<Rightarrow> js_error + session_description" where
  "offers i = Inr an_offer"

text \<open>No closure of the promise \<open>p\<close> is registered: not on the connection, not on a channel, not on a track.\<close>

definition quiet :: "pid \<Rightarrow> state \<Rightarrow> bool" where
  "quiet p st = (conn_owned p st = [] \<and> data_quiet p st)"

text \<open>No closure can settle or change the promise \<open>x\<close>: none of its own is registered, and none of a promise whose aggregate it is.\<close>

definition shielded :: "pid \<Rightarrow> state \<Rightarrow> bool" where
  "shielded x st =
    (quiet x st
     \<and> (\<forall>p < length (promises st). parent (promises st ! p) = Some x \<longrightarrow> quiet p st))"

text \<open>Calling the closure \<open>c\<close> leaves the promise \<open>x\<close> alone: \<open>c\<close> belongs to another promise, whose aggregate is not \<open>x\<close>.\<close>

definition apart :: "pid \<Rightarrow> state \<Rightarrow> closure \<Rightarrow> bool" where
  "apart x st c =
    (closure_pid c \<noteq> x
     \<and> (closure_pid c < length (promises st) \<longrightarrow> parent (promises st ! closure_pid c) \<noteq> Some x))"

text \<open>No write on a channel of the connection is still to be acknowledged.\<close>

definition idle :: "state \<Rightarrow> bool" where
  "idle st = list_all (\<lambda>ch. write_callbacks ch = []) (channels st)"

text \<open>The entry that \<^verbatim>\<open>new Promise\<close> appends.\<close>

definition fresh_promise :: promise where
  "fresh_promise = \<lparr>pstate = Pending, parent = None, remaining = 0\<rparr>"

text \<open>The positions of the channels that \<^verbatim>\<open>SendStep.handle\<close> keeps: \<^verbatim>\<open>channels.filter((channel) => this.matchesChannel(channel))\<close>.\<close>

definition matching :: "label option \<Rightarrow> state \<Rightarrow> nat list" where
  "matching l st = filter (\<lambda>i. matchesChannel l (channels st ! i)) [0..<length (channels st)]"

text \<open>The state in which a send step with the aggregate promise \<open>q\<close> waits: \<open>A\<close> holds, for each of its writes not yet acknowledged, the channel and the promise of the write. The channel has this one callback pending, the promise is pending and an element of \<open>q\<close>; \<open>q\<close> counts the elements of \<open>A\<close> and is fulfilled when there is none; no other channel has a write pending; no closure can touch these promises.\<close>

definition sending :: "pid \<Rightarrow> (nat \<times> pid) set \<Rightarrow> state \<Rightarrow> bool" where
  "sending q A s =
    (finite A \<and> q < length (promises s) \<and> parent (promises s ! q) = None
     \<and> remaining (promises s ! q) = card A
     \<and> pstate (promises s ! q) = (if A = {} then Fulfilled else Pending)
     \<and> (\<forall>(i, p) \<in> A. i < length (channels s) \<and> write_callbacks (channels s ! i) = [p]
           \<and> p < length (promises s) \<and> p \<noteq> q
           \<and> pstate (promises s ! p) = Pending \<and> parent (promises s ! p) = Some q)
     \<and> inj_on fst A \<and> inj_on snd A
     \<and> (\<forall>i < length (channels s). i \<notin> fst ` A \<longrightarrow> write_callbacks (channels s ! i) = [])
     \<and> (\<forall>x \<in> insert q (snd ` A). shielded x s))"

text \<open>The outcome that the specification states for a send step, from the channels it wrote to (those whose write is not yet acknowledged, \<open>pending\<close>) and the events since: success at once when no channel matched and as soon as the write on every channel has been acknowledged; failure with \<^verbatim>\<open>WriteFailed\<close> as soon as the write on one of them is acknowledged with an error, whatever the other writes do; pending otherwise. Events other than the acknowledgement of one of these writes do not count.\<close>

fun send_outcome :: "nat list \<Rightarrow> event list \<Rightarrow> promise_state" where
  "send_outcome pending [] = (if pending = [] then Fulfilled else Pending)"
| "send_outcome pending (e # es) =
    (if pending = [] then Fulfilled
     else case e of
            WriteDone j error \<Rightarrow>
              if j \<in> set pending then
                (case error of
                   None \<Rightarrow> send_outcome (removeAll j pending) es
                 | Some x \<Rightarrow> Rejected (WriteFailed x))
              else send_outcome pending es
          | _ \<Rightarrow> send_outcome pending es)"

text \<open>The state refers to none of the next \<open>n\<close> promises to be allocated: no closure, write callback or element names one of them.\<close>

definition unreferenced :: "nat \<Rightarrow> state \<Rightarrow> bool" where
  "unreferenced n st =
    list_all (\<lambda>x. fresh x st) [length (promises st)..<length (promises st) + n]"

section \<open>The registry\<close>

lemma StepLookup_keys: "map fst StepLookup = map fst StepDefinitionLookup"
  by (simp add: StepLookup_def StepDefinitionLookup_def)

lemma StepDefinitionLookup_keys: "set (map fst StepDefinitionLookup) = set step_tags"
  by (auto simp: StepDefinitionLookup_def step_tags_def)

lemma StepDefinitionLookup_distinct: "distinct (map fst StepDefinitionLookup)"
  by (simp add: StepDefinitionLookup_def)

lemma StepDefinitionLookup_type:
  "(t, d) \<in> set StepDefinitionLookup \<Longrightarrow> definition_type d = t"
  by (auto simp: StepDefinitionLookup_def)

lemma StepLookup_type: "(t, s) \<in> set StepLookup \<Longrightarrow> step_type s = t"
  by (auto simp: StepLookup_def step_type_def)

lemma StepDefinitionLookup_unique:
  "map_of StepDefinitionLookup t = Some d \<Longrightarrow> (t, d') \<in> set StepDefinitionLookup \<Longrightarrow> d' = d"
  using StepDefinitionLookup_distinct by (metis map_of_is_SomeI option.inject)

lemma StepLookup_unique:
  "map_of StepLookup t = Some s \<Longrightarrow> (t, s') \<in> set StepLookup \<Longrightarrow> s' = s"
  using StepDefinitionLookup_distinct StepLookup_keys by (metis map_of_is_SomeI option.inject)

lemma StepDefinitionLookup_map:
  "StepDefinitionLookup = map (\<lambda>(t, s). (t, extends s)) StepLookup"
  by (simp add: StepLookup_def StepDefinitionLookup_def)

lemma StepLookup_extends:
  "(t, s) \<in> set StepLookup \<Longrightarrow> (t, extends s) \<in> set StepDefinitionLookup"
  unfolding StepDefinitionLookup_map by force

text \<open>
  C1. The two tables have the same ten keys, without repetition. Every tag of the closed
  set resolves to a pair of a definition class and the step class extending it, both
  carrying that tag in their \<^verbatim>\<open>type\<close> field, and this pair is the only entry of either
  table under the tag. A tag outside the set does not resolve: the result is the failure
  \<^verbatim>\<open>UnknownStepType\<close>.
\<close>

theorem registry_resolves_exactly_the_ten_tags:
  "map fst StepLookup = map fst StepDefinitionLookup
   \<and> distinct (map fst StepLookup)
   \<and> set (map fst StepLookup) = set step_tags
   \<and> length step_tags = 10 \<and> distinct step_tags
   \<and> (\<forall>t. t \<in> set step_tags \<longrightarrow>
         (\<exists>d s. resolve t = Inr (d, s)
            \<and> definition_type d = t \<and> step_type s = t \<and> extends s = d
            \<and> (\<forall>d'. (t, d') \<in> set StepDefinitionLookup \<longrightarrow> d' = d)
            \<and> (\<forall>s'. (t, s') \<in> set StepLookup \<longrightarrow> s' = s)))
   \<and> (\<forall>t. t \<notin> set step_tags \<longrightarrow> resolve t = Inl (UnknownStepType t))"
proof (intro conjI allI impI)
  show "map fst StepLookup = map fst StepDefinitionLookup"
    by (rule StepLookup_keys)
  show "distinct (map fst StepLookup)"
    by (simp only: StepLookup_keys StepDefinitionLookup_distinct)
  show "set (map fst StepLookup) = set step_tags"
    by (simp only: StepLookup_keys StepDefinitionLookup_keys)
  show "length step_tags = 10" and "distinct step_tags"
    by (simp_all add: step_tags_def)
next
  fix t :: tag
  assume "t \<in> set step_tags"
  then have "t \<in> fst ` set StepDefinitionLookup"
    using StepDefinitionLookup_keys by simp
  then obtain d where d: "map_of StepDefinitionLookup t = Some d"
    by (metis map_of_eq_None_iff not_Some_eq)
  from \<open>t \<in> set step_tags\<close> have "t \<in> fst ` set StepLookup"
    using StepDefinitionLookup_keys StepLookup_keys by (metis set_map)
  then obtain s where s: "map_of StepLookup t = Some s"
    by (metis map_of_eq_None_iff not_Some_eq)
  have ds: "(t, d) \<in> set StepDefinitionLookup" and ss: "(t, s) \<in> set StepLookup"
    using d s by (auto dest: map_of_SomeD)
  have ext: "extends s = d"
    using StepLookup_extends [OF ss] StepDefinitionLookup_unique [OF d] by blast
  have "resolve t = Inr (d, s)"
    by (simp add: resolve_def d s)
  moreover have "definition_type d = t"
    by (rule StepDefinitionLookup_type [OF ds])
  moreover have "step_type s = t"
    by (rule StepLookup_type [OF ss])
  moreover have "\<forall>d'. (t, d') \<in> set StepDefinitionLookup \<longrightarrow> d' = d"
    using StepDefinitionLookup_unique [OF d] by blast
  moreover have "\<forall>s'. (t, s') \<in> set StepLookup \<longrightarrow> s' = s"
    using StepLookup_unique [OF s] by blast
  ultimately show "\<exists>d s. resolve t = Inr (d, s)
      \<and> definition_type d = t \<and> step_type s = t \<and> extends s = d
      \<and> (\<forall>d'. (t, d') \<in> set StepDefinitionLookup \<longrightarrow> d' = d)
      \<and> (\<forall>s'. (t, s') \<in> set StepLookup \<longrightarrow> s' = s)"
    using ext by blast
next
  fix t :: tag
  assume "t \<notin> set step_tags"
  then have "t \<notin> fst ` set StepDefinitionLookup"
    using StepDefinitionLookup_keys by simp
  then have "map_of StepDefinitionLookup t = None"
    by (simp add: map_of_eq_None_iff)
  then show "resolve t = Inl (UnknownStepType t)"
    by (simp add: resolve_def)
qed

theorem registry_resolves_witness:
  "''send-message'' \<in> set step_tags
   \<and> resolve ''send-message'' = Inr (SendStepDefinition, SendStep)
   \<and> step_type SendStep = ''send-message''
   \<and> ''wait-for-reply'' \<notin> set step_tags
   \<and> resolve ''wait-for-reply'' = Inl (UnknownStepType ''wait-for-reply'')"
proof -
  have in_tags: "''send-message'' \<in> set step_tags"
    by (simp add: step_tags_def)
  have out_tags: "''wait-for-reply'' \<notin> set step_tags"
    by (simp add: step_tags_def)
  have r: "resolve ''send-message'' = Inr (SendStepDefinition, SendStep)"
    by (simp add: resolve_def StepDefinitionLookup_def StepLookup_def)
  from registry_resolves_exactly_the_ten_tags
  have "resolve ''wait-for-reply'' = Inl (UnknownStepType ''wait-for-reply'')"
    using out_tags by blast
  moreover from registry_resolves_exactly_the_ten_tags in_tags
  obtain d s where "resolve ''send-message'' = Inr (d, s)" and "step_type s = ''send-message''"
    by blast
  ultimately show ?thesis
    using in_tags out_tags r by simp
qed

section \<open>Promises settle once\<close>

lemmas ops = log_def alloc_promise_def promise_resolve_def promise_reject_def conn_on_def
  conn_once_def conn_removeListener_def upd_channel_def upd_track_def

lemma length_resolve_in [simp]: "length (resolve_in p ps) = length ps"
  by (simp add: resolve_in_def Let_def split: option.splits)

lemma length_reject_in [simp]: "length (reject_in p f ps) = length ps"
  by (simp add: reject_in_def Let_def split: option.splits)

lemma resolve_in_settled: "q < length ps \<Longrightarrow> pstate (ps ! q) \<noteq> Pending \<Longrightarrow> pstate (resolve_in p ps ! q) = pstate (ps ! q)"
  by (auto simp: resolve_in_def Let_def nth_list_update split: option.splits)

lemma reject_in_settled: "q < length ps \<Longrightarrow> pstate (ps ! q) \<noteq> Pending \<Longrightarrow> pstate (reject_in p f ps ! q) = pstate (ps ! q)"
  by (auto simp: reject_in_def Let_def nth_list_update split: option.splits)

lemma resolve_in_fulfils: "p < length ps \<Longrightarrow> pstate (ps ! p) = Pending \<Longrightarrow> parent (ps ! p) \<noteq> Some p \<Longrightarrow> pstate (resolve_in p ps ! p) = Fulfilled"
  by (auto simp: resolve_in_def Let_def nth_list_update split: option.splits)

section \<open>Waiting for a channel or a track that is already there\<close>

lemma channelOpened_keeps:
  "done_or_fresh p s \<Longrightarrow> done_or_fresh p (call (ChannelOpened p l) arg s) \<and> channels (call (ChannelOpened p l) arg s) = channels s
   \<and> (promise_state_of p s = Fulfilled \<longrightarrow> promise_state_of p (call (ChannelOpened p l) arg s) = Fulfilled)"
  by (auto simp: done_or_fresh_def call_def channelOpened_def channel_arg_def ops promise_state_of_def resolve_in_def Let_def split: option.splits stream_ref.splits)

lemma channelOpened_match:
  "done_or_fresh p s \<Longrightarrow> i < length (channels s) \<Longrightarrow> matchesChannel l (channels s ! i) \<Longrightarrow>
   promise_state_of p (call (ChannelOpened p l) (Some (Channel i)) s) = Fulfilled"
  by (auto simp: done_or_fresh_def call_def channelOpened_def channel_arg_def ops promise_state_of_def resolve_in_def Let_def split: option.splits stream_ref.splits)

lemma forEach_channelOpened_keeps:
  "done_or_fresh p s \<Longrightarrow>
   done_or_fresh p (foldl (\<lambda>s i. call (ChannelOpened p l) (Some (Channel i)) s) s xs)
   \<and> channels (foldl (\<lambda>s i. call (ChannelOpened p l) (Some (Channel i)) s) s xs) = channels s
   \<and> (promise_state_of p s = Fulfilled \<longrightarrow> promise_state_of p (foldl (\<lambda>s i. call (ChannelOpened p l) (Some (Channel i)) s) s xs) = Fulfilled)"
proof (induction xs arbitrary: s)
  case Nil
  then show ?case by simp
next
  case (Cons x xs)
  from channelOpened_keeps [OF Cons.prems, of l "Some (Channel x)"] Cons.IH [of "call (ChannelOpened p l) (Some (Channel x)) s"]
  show ?case by simp
qed

lemma forEach_channelOpened_match:
  assumes "done_or_fresh p s" "i \<in> set xs" "i < length (channels s)" "matchesChannel l (channels s ! i)"
  shows "promise_state_of p (foldl (\<lambda>s i. call (ChannelOpened p l) (Some (Channel i)) s) s xs) = Fulfilled"
  using assms
proof (induction xs arbitrary: s)
  case Nil
  then show ?case by simp
next
  case (Cons x xs)
  let ?s1 = "call (ChannelOpened p l) (Some (Channel x)) s"
  have k: "done_or_fresh p ?s1" "channels ?s1 = channels s"
    using channelOpened_keeps [OF Cons.prems(1)] by auto
  show ?case
  proof (cases "x = i")
    case True
    then have "promise_state_of p ?s1 = Fulfilled"
      using channelOpened_match Cons.prems by blast
    then show ?thesis
      using forEach_channelOpened_keeps [OF k(1), of l xs] by simp
  next
    case False
    then have "i \<in> set xs" using Cons.prems by simp
    then show ?thesis
      using Cons.IH [OF k(1)] Cons.prems k(2) by simp
  qed
qed

text \<open>
  C4. If some remote channel of the connection matches the label filter when
  \<^verbatim>\<open>WaitForChannelStep.handle\<close> runs, the promise it returns is fulfilled in the state it
  leaves, before any event of the connection; and if the connection has a remote media
  track when \<^verbatim>\<open>WaitForTrackStep.handle\<close> runs, so is the promise that one returns.
\<close>

theorem wait_completes_on_present:
  "(i \<in> set (remoteChannels st) \<and> i < length (channels st) \<and> matchesChannel l (channels st ! i)
      \<longrightarrow> promise_state_of (fst (WaitForChannelStep_handle l st)) (snd (WaitForChannelStep_handle l st)) = Fulfilled)
   \<and> (remoteMediaTracks st \<noteq> []
      \<longrightarrow> promise_state_of (fst (WaitForTrackStep_handle st)) (snd (WaitForTrackStep_handle st)) = Fulfilled)"
proof (intro conjI impI)
  assume a: "i \<in> set (remoteChannels st) \<and> i < length (channels st) \<and> matchesChannel l (channels st ! i)"
  let ?p = "length (promises st)"
  let ?s3 = "log GetRemoteChannels (conn_on RemoteChannelOpenEv (ChannelOpened ?p l) (alloc_promise st))"
  have f: "done_or_fresh ?p ?s3"
    by (simp add: done_or_fresh_def ops)
  have c: "channels ?s3 = channels st" "remoteChannels ?s3 = remoteChannels st"
    by (simp_all add: ops)
  show "promise_state_of (fst (WaitForChannelStep_handle l st)) (snd (WaitForChannelStep_handle l st)) = Fulfilled"
    unfolding WaitForChannelStep_handle_def Let_def fst_conv snd_conv
    using forEach_channelOpened_match [OF f, of i "remoteChannels ?s3" l] a c by simp
next
  assume "remoteMediaTracks st \<noteq> []"
  then show "promise_state_of (fst (WaitForTrackStep_handle st)) (snd (WaitForTrackStep_handle st)) = Fulfilled"
    by (simp add: WaitForTrackStep_handle_def Let_def ops promise_state_of_def resolve_in_def)
qed

theorem wait_completes_on_present_witness:
  "0 \<in> set (remoteChannels chat_and_video) \<and> 0 < length (channels chat_and_video)
   \<and> matchesChannel (Some ''chat'') (channels chat_and_video ! 0)
   \<and> promise_state_of (fst (WaitForChannelStep_handle (Some ''chat'') chat_and_video))
        (snd (WaitForChannelStep_handle (Some ''chat'') chat_and_video)) = Fulfilled
   \<and> remoteMediaTracks chat_and_video \<noteq> []
   \<and> promise_state_of (fst (WaitForTrackStep_handle chat_and_video))
        (snd (WaitForTrackStep_handle chat_and_video)) = Fulfilled"
proof -
  have h: "0 \<in> set (remoteChannels chat_and_video) \<and> 0 < length (channels chat_and_video)
      \<and> matchesChannel (Some ''chat'') (channels chat_and_video ! 0)"
    by (simp add: chat_and_video_def new_connection_def new_channel_def matchesChannel_def)
  have t: "remoteMediaTracks chat_and_video \<noteq> []"
    by (simp add: chat_and_video_def new_connection_def)
  from wait_completes_on_present [of 0 chat_and_video "Some ''chat''"] h t
  show ?thesis by blast
qed

section \<open>The order of subscribing and checking in the wait for a channel\<close>

lemma channelOpened_trace:
  "\<exists>t. trace (call (ChannelOpened p l) arg s) = trace s @ t
     \<and> set t \<subseteq> {Invoked (ChannelOpened p l), CallRemoveListener RemoteChannelOpenEv (ChannelOpened p l)}"
  by (auto simp: call_def channelOpened_def ops split: option.splits)

lemma forEach_channelOpened_trace:
  "\<exists>t. trace (foldl (\<lambda>s i. call (ChannelOpened p l) (Some (Channel i)) s) s xs) = trace s @ t
     \<and> set t \<subseteq> {Invoked (ChannelOpened p l), CallRemoveListener RemoteChannelOpenEv (ChannelOpened p l)}"
proof (induction xs arbitrary: s)
  case Nil
  then show ?case by simp
next
  case (Cons x xs)
  obtain t1 where t1: "trace (call (ChannelOpened p l) (Some (Channel x)) s) = trace s @ t1"
    "set t1 \<subseteq> {Invoked (ChannelOpened p l), CallRemoveListener RemoteChannelOpenEv (ChannelOpened p l)}"
    using channelOpened_trace by blast
  obtain t2 where t2: "trace (foldl (\<lambda>s i. call (ChannelOpened p l) (Some (Channel i)) s) (call (ChannelOpened p l) (Some (Channel x)) s) xs)
      = trace (call (ChannelOpened p l) (Some (Channel x)) s) @ t2"
    "set t2 \<subseteq> {Invoked (ChannelOpened p l), CallRemoveListener RemoteChannelOpenEv (ChannelOpened p l)}"
    using Cons.IH by blast
  show ?case
    by (rule exI [of _ "t1 @ t2"]) (use t1 t2 in auto)
qed

text \<open>
  C8, as the code has it. \<^verbatim>\<open>WaitForChannelStep.handle\<close> first registers its listener for
  \<^verbatim>\<open>'remote-channel-open'\<close> and then reads \<^verbatim>\<open>connection.remoteChannels\<close>: these are the
  first two things it does to the connection, in this order, and neither happens again
  in the call. So the subscription comes before the check, never the check before the
  subscription.
\<close>

theorem wait_for_channel_subscribes_then_checks:
  "(\<exists>rest. new_entries st (snd (WaitForChannelStep_handle l st))
       = CallOn RemoteChannelOpenEv (ChannelOpened (fst (WaitForChannelStep_handle l st)) l)
         # GetRemoteChannels # rest
      \<and> CallOn RemoteChannelOpenEv (ChannelOpened (fst (WaitForChannelStep_handle l st)) l)
          \<notin> set rest
      \<and> GetRemoteChannels \<notin> set rest)
   \<and> precedes (CallOn RemoteChannelOpenEv (ChannelOpened (fst (WaitForChannelStep_handle l st)) l))
        GetRemoteChannels (new_entries st (snd (WaitForChannelStep_handle l st)))
   \<and> \<not> precedes GetRemoteChannels
        (CallOn RemoteChannelOpenEv (ChannelOpened (fst (WaitForChannelStep_handle l st)) l))
        (new_entries st (snd (WaitForChannelStep_handle l st)))"
proof -
  let ?p = "length (promises st)"
  let ?s3 = "log GetRemoteChannels (conn_on RemoteChannelOpenEv (ChannelOpened ?p l) (alloc_promise st))"
  obtain t where t: "trace (foldl (\<lambda>s i. call (ChannelOpened ?p l) (Some (Channel i)) s) ?s3 (remoteChannels ?s3)) = trace ?s3 @ t"
    "set t \<subseteq> {Invoked (ChannelOpened ?p l), CallRemoveListener RemoteChannelOpenEv (ChannelOpened ?p l)}"
    using forEach_channelOpened_trace by blast
  have "trace ?s3 = trace st @ [CallOn RemoteChannelOpenEv (ChannelOpened ?p l), GetRemoteChannels]"
    by (simp add: ops)
  with t show ?thesis
    by (auto simp: WaitForChannelStep_handle_def Let_def new_entries_def precedes_def)
qed

text \<open>
  C8, as the specification states it (the check of the collection before the
  subscription), fails: on a connection with one remote channel the read of
  \<^verbatim>\<open>remoteChannels\<close> does not come before the call of \<^verbatim>\<open>on\<close>.
\<close>

theorem wait_for_channel_check_first_counterexample:
  "\<not> precedes GetRemoteChannels (CallOn RemoteChannelOpenEv (ChannelOpened 0 None))
       (new_entries chat_and_video (snd (WaitForChannelStep_handle None chat_and_video)))"
  by (simp add: precedes_def new_entries_def chat_and_video_def new_connection_def new_channel_def
      WaitForChannelStep_handle_def Let_def ops call_def channelOpened_def channel_arg_def
      matchesChannel_def remove_last_def resolve_in_def)

section \<open>A message wait that fires pauses every channel\<close>

lemma nth_update_any: "j < length xs \<Longrightarrow> (xs[i := y]) ! j = (if i = j then y else xs ! j)"
  by (cases "i = j") auto

lemma map_update_same: "(\<And>x. g (f x) = g x) \<Longrightarrow> map g (xs[i := f (xs ! i)]) = map g xs"
  by (auto simp: list_eq_iff_nth_eq nth_update_any)

lemma list_all_update_same: "list_all P xs \<Longrightarrow> (\<And>x. P x \<Longrightarrow> P (f x)) \<Longrightarrow> list_all P (xs[i := f (xs ! i)])"
  by (auto simp: list_all_length nth_update_any)

lemmas stream_ops = stream_once_def stream_removeListener_def stream_pause_def stream_pipe_def

lemma invoke_labels: "map label (channels (invoke c arg s)) = map label (channels s)"
  by (cases c)
     (auto simp: channelOpened_def listenForMessage_def messageReceived_def listenForData_def
        mediaReceived_def echoContent_def ops stream_ops Let_def map_update_same
        split: option.splits stream_ref.splits)

lemma invoke_paused: "all_paused s \<Longrightarrow> all_paused (invoke c arg s)"
  unfolding all_paused_def
  by (cases c)
     (auto simp: channelOpened_def listenForMessage_def messageReceived_def listenForData_def
        mediaReceived_def echoContent_def ops stream_ops Let_def list_all_length nth_update_any
        split: option.splits stream_ref.splits)

lemma fire_data_labels: "map label (channels (fire_data r s x)) = map label (channels s)"
  by (cases x) (auto simp: fire_data_def call_def invoke_labels unregister_def ops map_update_same split: stream_ref.splits)

lemma fire_data_paused: "all_paused s \<Longrightarrow> all_paused (fire_data r s x)"
proof -
  assume a: "all_paused s"
  obtain b c where x: "x = (b, c)" by (cases x)
  have "all_paused (if b then unregister r (True, c) s else s)"
    using a by (auto simp: all_paused_def unregister_def ops list_all_length nth_update_any split: stream_ref.splits)
  then have "all_paused (log (Invoked c) (if b then unregister r (True, c) s else s))"
    by (simp add: all_paused_def ops)
  then show ?thesis
    by (simp only: x fire_data_def call_def prod.case invoke_paused)
qed

lemma foldl_fire_data_labels: "map label (channels (foldl (fire_data r) s xs)) = map label (channels s)"
  by (induction xs arbitrary: s) (simp_all add: fire_data_labels)

lemma foldl_fire_data_paused: "all_paused s \<Longrightarrow> all_paused (foldl (fire_data r) s xs)"
  by (induction xs arbitrary: s) (simp_all add: fire_data_paused)

lemma messageReceived_pauses: "all_paused (fire_data r s (one_shot, MessageReceived p l))"
  by (simp add: fire_data_def call_def messageReceived_def Let_def ops all_paused_def list_all_length stream_ops)

lemma data_fires_pause_all:
  assumes "(one_shot, MessageReceived p l) \<in> set (stream_listeners (Channel i) st)"
  shows "all_paused (step (ChannelData i) st) \<and> map label (channels (step (ChannelData i) st)) = map label (channels st)"
proof -
  obtain ys zs where split: "stream_listeners (Channel i) st = ys @ (one_shot, MessageReceived p l) # zs"
    using assms by (meson split_list)
  have "all_paused (foldl (fire_data (Channel i)) st (ys @ (one_shot, MessageReceived p l) # zs))"
    by (simp add: messageReceived_pauses foldl_fire_data_paused)
  then show ?thesis
    by (simp add: emit_data_def split foldl_fire_data_labels fire_data_labels)
qed

lemma foldl_establish:
  assumes keep: "\<And>s x. I s \<Longrightarrow> I (f s x)"
    and stay: "\<And>s x. I s \<Longrightarrow> Q s \<Longrightarrow> Q (f s x)"
    and est: "\<And>s. I s \<Longrightarrow> Q (f s i)"
    and "i \<in> set xs" and "I s"
  shows "Q (foldl f s xs) \<and> I (foldl f s xs)"
proof -
  have all: "I s \<Longrightarrow> I (foldl f s ys) \<and> (Q s \<longrightarrow> Q (foldl f s ys))" for s ys
    by (induction ys arbitrary: s) (auto simp: keep stay)
  from \<open>i \<in> set xs\<close> obtain ys zs where xs: "xs = ys @ i # zs"
    by (meson split_list)
  have 1: "I (foldl f s ys)" using all \<open>I s\<close> by blast
  then have 2: "Q (f (foldl f s ys) i)" "I (f (foldl f s ys) i)"
    using est keep by blast+
  then show ?thesis
    using all [of "f (foldl f s ys) i" zs] by (simp add: xs)
qed

lemma matchesChannel_label: "label a = label b \<Longrightarrow> matchesChannel l a = matchesChannel l b"
  by (simp add: matchesChannel_def)

lemma listenForMessage_labels:
  "map label (channels (call (ListenForMessage p l) arg s)) = map label (channels s)"
  using invoke_labels [of "ListenForMessage p l" arg "log (Invoked (ListenForMessage p l)) s"]
  by (simp add: call_def log_def)

lemma listenForMessage_mono:
  "j < length (channels s) \<Longrightarrow> x \<in> set (data_listeners (channels s ! j)) \<Longrightarrow>
   x \<in> set (data_listeners (channels (call (ListenForMessage p l) arg s) ! j))"
  by (auto simp: call_def listenForMessage_def channel_arg_def ops stream_ops nth_update_any
      split: option.splits stream_ref.splits)

lemma listenForMessage_adds:
  "i < length (channels s) \<Longrightarrow> matchesChannel l (channels s ! i) \<Longrightarrow>
   (True, MessageReceived p l) \<in> set (data_listeners (channels (call (ListenForMessage p l) (Some (Channel i)) s) ! i))"
  by (simp add: call_def listenForMessage_def channel_arg_def ops stream_ops)

lemma handle_registers:
  assumes i: "i < length (channels st)" and m: "matchesChannel l (channels st ! i)"
  shows "(True, MessageReceived (fst (WaitForMessageStep_handle l st)) l)
           \<in> set (stream_listeners (Channel i) (snd (WaitForMessageStep_handle l st)))"
proof -
  let ?p = "length (promises st)"
  let ?f = "\<lambda>s i. call (ListenForMessage ?p l) (Some (Channel i)) s"
  let ?s3 = "log GetChannels (conn_on ChannelOpenEv (ListenForMessage ?p l) (alloc_promise st))"
  let ?I = "\<lambda>s. map label (channels s) = map label (channels st)"
  let ?Q = "\<lambda>s. (True, MessageReceived ?p l) \<in> set (data_listeners (channels s ! i))"
  have len: "length (channels s) = length (channels st)" if "?I s" for s :: state
    using that by (metis length_map)
  have lab: "label (channels s ! i) = label (channels st ! i)" if "?I s" for s :: state
    using that i len [OF that] by (metis nth_map)
  have r: "?Q (foldl ?f ?s3 [0..<length (channels ?s3)]) \<and> ?I (foldl ?f ?s3 [0..<length (channels ?s3)])"
  proof (rule foldl_establish [where I = ?I and Q = ?Q and i = i])
    show "?I (?f s x)" if "?I s" for s x
      using that by (simp add: listenForMessage_labels)
    show "?Q (?f s x)" if "?I s" "?Q s" for s x
    proof -
      have "i < length (channels s)" using len [OF that(1)] i by simp
      then show ?thesis using that(2) by (rule listenForMessage_mono)
    qed
    show "?Q (?f s i)" if "?I s" for s
    proof -
      have 1: "i < length (channels s)" using len [OF that] i by simp
      have 2: "matchesChannel l (channels s ! i)"
        using matchesChannel_label [OF lab [OF that], of l] m by simp
      show ?thesis using 1 2 by (rule listenForMessage_adds)
    qed
    show "i \<in> set [0..<length (channels ?s3)]"
      using i by (simp add: ops)
    show "?I ?s3" by (simp add: ops)
  qed
  from r have "length (channels (foldl ?f ?s3 [0..<length (channels ?s3)])) = length (channels st)"
    by (metis length_map)
  then have "i < length (channels (foldl ?f ?s3 [0..<length (channels ?s3)]))"
    using i by simp
  moreover from r have "?Q (foldl ?f ?s3 [0..<length (channels ?s3)])" ..
  ultimately show ?thesis
    by (simp add: WaitForMessageStep_handle_def Let_def stream_listeners_def)
qed

lemma foldl_listenForMessage_labels:
  "map label (channels (foldl (\<lambda>s i. call (ListenForMessage p l) (Some (Channel i)) s) s xs))
   = map label (channels s)"
  by (induction xs arbitrary: s) (simp_all add: listenForMessage_labels)

lemma handle_labels:
  "map label (channels (snd (WaitForMessageStep_handle l st))) = map label (channels st)"
  by (simp add: WaitForMessageStep_handle_def Let_def foldl_listenForMessage_labels) (simp add: ops)

text \<open>
  C9. \<^verbatim>\<open>WaitForMessageStep.handle\<close> registers its data listener on each channel that
  matches the label filter. In any state in which a channel carries that listener, data
  arriving on the channel leaves every channel of the connection paused, whatever its
  label and whether or not the step ever listened on it; no channel is added, removed or
  relabelled. So data on a matching channel right after \<^verbatim>\<open>handle\<close> pauses them all.
\<close>

theorem wait_for_message_pauses_every_channel:
  "(i < length (channels st) \<and> matchesChannel l (channels st ! i) \<longrightarrow>
      (True, MessageReceived (fst (WaitForMessageStep_handle l st)) l)
         \<in> set (stream_listeners (Channel i) (snd (WaitForMessageStep_handle l st)))
      \<and> all_paused (step (ChannelData i) (snd (WaitForMessageStep_handle l st)))
      \<and> map label (channels (step (ChannelData i) (snd (WaitForMessageStep_handle l st))))
          = map label (channels st))
   \<and> ((one_shot, MessageReceived p l) \<in> set (stream_listeners (Channel j) s) \<longrightarrow>
        all_paused (step (ChannelData j) s)
        \<and> map label (channels (step (ChannelData j) s)) = map label (channels s))"
proof (intro conjI impI)
  assume a: "i < length (channels st) \<and> matchesChannel l (channels st ! i)"
  let ?p = "fst (WaitForMessageStep_handle l st)"
  let ?s = "snd (WaitForMessageStep_handle l st)"
  show r: "(True, MessageReceived ?p l) \<in> set (stream_listeners (Channel i) ?s)"
    using a handle_registers by blast
  show "all_paused (step (ChannelData i) ?s)"
    using data_fires_pause_all [OF r] by blast
  have "map label (channels ?s) = map label (channels st)"
    by (rule handle_labels)
  then show "map label (channels (step (ChannelData i) ?s)) = map label (channels st)"
    using data_fires_pause_all [OF r] by simp
next
  assume b: "(one_shot, MessageReceived p l) \<in> set (stream_listeners (Channel j) s)"
  show "all_paused (step (ChannelData j) s)"
    using data_fires_pause_all [OF b] by blast
  show "map label (channels (step (ChannelData j) s)) = map label (channels s)"
    using data_fires_pause_all [OF b] by blast
qed

theorem wait_for_message_pauses_witness:
  "0 < length (channels chat_and_log)
   \<and> matchesChannel (Some ''chat'') (channels chat_and_log ! 0)
   \<and> \<not> matchesChannel (Some ''chat'') (channels chat_and_log ! 1)
   \<and> data_listeners (channels (snd (WaitForMessageStep_handle (Some ''chat'') chat_and_log)) ! 1) = []
   \<and> \<not> paused (channels (snd (WaitForMessageStep_handle (Some ''chat'') chat_and_log)) ! 1)
   \<and> all_paused (step (ChannelData 0) (snd (WaitForMessageStep_handle (Some ''chat'') chat_and_log)))
   \<and> map label (channels (step (ChannelData 0) (snd (WaitForMessageStep_handle (Some ''chat'') chat_and_log))))
       = [''chat'', ''log'']"
proof -
  have h: "0 < length (channels chat_and_log)
      \<and> matchesChannel (Some ''chat'') (channels chat_and_log ! 0)"
    by (simp add: chat_and_log_def new_connection_def new_channel_def matchesChannel_def)
  have n: "\<not> matchesChannel (Some ''chat'') (channels chat_and_log ! 1)"
    by (simp add: chat_and_log_def new_connection_def new_channel_def matchesChannel_def)
  have l: "map label (channels chat_and_log) = [''chat'', ''log'']"
    by (simp add: chat_and_log_def new_connection_def new_channel_def)
  have d: "data_listeners (channels (snd (WaitForMessageStep_handle (Some ''chat'') chat_and_log)) ! 1) = []
      \<and> \<not> paused (channels (snd (WaitForMessageStep_handle (Some ''chat'') chat_and_log)) ! 1)"
    by (simp add: chat_and_log_def new_connection_def new_channel_def matchesChannel_def
        WaitForMessageStep_handle_def Let_def ops call_def listenForMessage_def channel_arg_def
        stream_ops upt_rec [of 0] upt_rec [of 1])
  from wait_for_message_pauses_every_channel [of 0 chat_and_log "Some ''chat''"] h n l d
  show ?thesis by simp
qed

section \<open>A peer proxy whose answer source throws\<close>

lemma length_foldl_rtc_close:
  "length (rtc_connections (foldl (\<lambda>s conn. rtc_close conn s) st xs)) = length (rtc_connections st)"
  by (induction xs arbitrary: st) (simp_all add: rtc_close_def)

lemma foldl_rtc_close_closed:
  "j < length (rtc_connections st) \<Longrightarrow>
   rtc_closed (rtc_connections (foldl (\<lambda>s conn. rtc_close conn s) st xs) ! j)
   = (j \<in> set xs \<or> rtc_closed (rtc_connections st ! j))"
  by (induction xs arbitrary: st) (auto simp: rtc_close_def nth_update_any)

text \<open>
  C7. When the answer source of a peer proxy step rejects the offer of the external
  connection, the promise of \<^verbatim>\<open>handle\<close> is rejected with that error as a negotiation
  failure; the external connection, created and still open, is the last entry of the
  step's \<^verbatim>\<open>externalConnections\<close>; and after \<^verbatim>\<open>dispose\<close> it is closed, as is every connection
  the step has recorded.
\<close>

theorem peer_proxy_failed_answer_is_disposed:
  assumes "getLocalDescription (length (rtc_connections st)) = Inr externalOffer"
    and "fst (getAnswer this externalOffer w) = Inl e"
    and "PeerProxyStep_handle getLocalDescription this st w = (p, this', st', w')"
  shows "promise_state_of p st' = Rejected (NegotiationFailed e)
    \<and> externalConnections this' = externalConnections this @ [length (rtc_connections st)]
    \<and> length (rtc_connections st') = Suc (length (rtc_connections st))
    \<and> \<not> rtc_closed (rtc_connections st' ! length (rtc_connections st))
    \<and> rtc_closed (rtc_connections (PeerProxyStep_dispose this' st') ! length (rtc_connections st))
    \<and> (\<forall>i \<in> set (externalConnections this'). i < length (rtc_connections st') \<longrightarrow>
          rtc_closed (rtc_connections (PeerProxyStep_dispose this' st') ! i))"
proof -
  obtain w1 where ga: "getAnswer this externalOffer w = (Inl e, w1)"
    using assms(2) by (cases "getAnswer this externalOffer w") auto
  let ?n = "length (rtc_connections st)"
  have this': "this' = this\<lparr>externalConnections := externalConnections this @ [?n]\<rparr>"
    and p: "p = length (promises st)"
    and st': "st' = promise_reject p (NegotiationFailed e)
       ((alloc_promise st)\<lparr>rtc_connections := rtc_connections st @ [new_RTCConnection]\<rparr>)"
    using assms(1,3) ga by (auto simp: PeerProxyStep_handle_def Let_def alloc_promise_def)
  have 1: "promise_state_of p st' = Rejected (NegotiationFailed e)"
    by (simp add: st' p promise_state_of_def ops reject_in_def)
  have 2: "length (rtc_connections st') = Suc ?n"
    by (simp add: st' ops)
  have 3: "\<not> rtc_closed (rtc_connections st' ! ?n)"
    by (simp add: st' ops new_RTCConnection_def)
  have 4: "rtc_closed (rtc_connections (PeerProxyStep_dispose this' st') ! i)"
    if "i \<in> set (externalConnections this')" "i < length (rtc_connections st')" for i
    using that by (simp add: PeerProxyStep_dispose_def foldl_rtc_close_closed)
  have 5: "?n \<in> set (externalConnections this')"
    by (simp add: this')
  show ?thesis
    using 1 2 3 4 [OF 5] 4 this' by simp
qed

theorem peer_proxy_failed_answer_witness:
  "promise_state_of 0 (fst (snd (snd (PeerProxyStep_handle (\<lambda>i. Inr an_offer) (new_PeerProxyStep (TargetFunction no_answer)) new_connection ()))))
     = Rejected (NegotiationFailed (Error ''no answer''))
   \<and> externalConnections (fst (snd (PeerProxyStep_handle (\<lambda>i. Inr an_offer) (new_PeerProxyStep (TargetFunction no_answer)) new_connection ()))) = [0]
   \<and> rtc_closed (rtc_connections
         (PeerProxyStep_dispose
           (fst (snd (PeerProxyStep_handle (\<lambda>i. Inr an_offer) (new_PeerProxyStep (TargetFunction no_answer)) new_connection ())))
           (fst (snd (snd (PeerProxyStep_handle (\<lambda>i. Inr an_offer) (new_PeerProxyStep (TargetFunction no_answer)) new_connection ()))))) ! 0)"
proof -
  let ?step0 = "new_PeerProxyStep (TargetFunction no_answer)"
  let ?r = "PeerProxyStep_handle (\<lambda>i. Inr an_offer) ?step0 new_connection ()"
  have a: "(\<lambda>i::nat. (Inr an_offer :: js_error + session_description)) (length (rtc_connections new_connection)) = Inr an_offer"
    by simp
  have b: "fst (getAnswer ?step0 an_offer ()) = Inl (Error ''no answer'')"
    by (simp add: new_PeerProxyStep_def no_answer_def)
  have c: "?r = (fst ?r, fst (snd ?r), fst (snd (snd ?r)), snd (snd (snd ?r)))"
    by (simp add: prod_eq_iff)
  have d: "fst ?r = 0"
    by (simp add: PeerProxyStep_handle_def Let_def new_connection_def split: sum.splits prod.splits)
  have e: "externalConnections ?step0 = []" "length (rtc_connections new_connection) = 0"
    by (simp_all add: new_PeerProxyStep_def new_connection_def)
  from peer_proxy_failed_answer_is_disposed [OF a b c] d e
  show ?thesis by simp
qed


section \<open>A dynamic proxy step owns no connection\<close>

text \<open>
  C10. Whatever is done to a dynamic proxy step after its construction, its
  \<^verbatim>\<open>externalConnections\<close> stay empty, and its \<^verbatim>\<open>dispose\<close> leaves every state as it finds it.
\<close>

theorem dynamic_proxy_owns_nothing:
  "externalConnections (fst (dynamic_ops os (new_DynamicProxyStep, st))) = []
   \<and> (\<forall>st'. DynamicProxyStep_dispose (fst (dynamic_ops os (new_DynamicProxyStep, st))) st' = st')"
proof -
  have step: "externalConnections (fst (apply_dynamic a x)) = externalConnections (fst x)" for a x
    by (cases a; cases x) (simp_all add: DynamicProxyStep_handle_def Let_def split: option.splits)
  have "externalConnections (fst (foldl (\<lambda>x a. apply_dynamic a x) x os)) = externalConnections (fst x)" for x
    by (induction os arbitrary: x) (simp_all add: step)
  then have "externalConnections (fst (dynamic_ops os (new_DynamicProxyStep, st))) = []"
    by (simp add: dynamic_ops_def new_DynamicProxyStep_def)
  then show ?thesis
    by (simp add: DynamicProxyStep_dispose_def)
qed


section \<open>A peer proxy step across the dispatch channel\<close>

lemma handle_depends_on_answer_only:
  assumes "\<And>x. fst (getAnswer s2 x w2) = fst (getAnswer s1 x w1)"
  shows "fst (PeerProxyStep_handle g s2 st w2) = fst (PeerProxyStep_handle g s1 st w1)
    \<and> fst (snd (snd (PeerProxyStep_handle g s2 st w2))) = fst (snd (snd (PeerProxyStep_handle g s1 st w1)))"
proof (cases "g (length (rtc_connections st))")
  case (Inl e)
  then show ?thesis
    by (simp add: PeerProxyStep_handle_def Let_def alloc_promise_def)
next
  case (Inr x)
  obtain r1 v1 where 1: "getAnswer s1 x w1 = (r1, v1)" by (cases "getAnswer s1 x w1")
  obtain r2 v2 where 2: "getAnswer s2 x w2 = (r2, v2)" by (cases "getAnswer s2 x w2")
  have "r2 = r1" using assms [of x] 1 2 by simp
  then show ?thesis
    using Inr 1 2 by (cases r1) (simp_all add: PeerProxyStep_handle_def Let_def alloc_promise_def)
qed

text \<open>
  C2. Serializing a peer proxy step gives the wire form with the tag \<^verbatim>\<open>peer-proxy\<close>, which
  the registry resolves to the peer proxy classes, and registers the step's answer
  source on the channel. The step deserialized from it, run where the channel reaches
  the serializing side, answers every offer as the original step does there: the same
  answer or error, the same effect on that side. \<^verbatim>\<open>handle\<close> takes the answer source as it
  comes: for the deserialized step it returns the same promise and leaves the same state
  as for the original one.
\<close>

theorem peer_proxy_round_trip:
  "wire_type (fst (PeerProxyStep_serialize this channel)) = ''peer-proxy''
   \<and> resolve (wire_type (fst (PeerProxyStep_serialize this channel))) = Inr (PeerProxyStepDefinition, PeerProxyStep)
   \<and> getAnswer (PeerProxyStep_deserialize (fst (PeerProxyStep_serialize this channel))) ofr
        \<lparr>client = c, dispatch = snd (PeerProxyStep_serialize this channel)\<rparr>
      = (fst (getAnswer this ofr c),
         \<lparr>client = snd (getAnswer this ofr c), dispatch = snd (PeerProxyStep_serialize this channel)\<rparr>)
   \<and> fst (PeerProxyStep_handle g (PeerProxyStep_deserialize (fst (PeerProxyStep_serialize this channel))) st
          \<lparr>client = c, dispatch = snd (PeerProxyStep_serialize this channel)\<rparr>)
      = fst (PeerProxyStep_handle g this st c)
   \<and> fst (snd (snd (PeerProxyStep_handle g (PeerProxyStep_deserialize (fst (PeerProxyStep_serialize this channel))) st
          \<lparr>client = c, dispatch = snd (PeerProxyStep_serialize this channel)\<rparr>)))
      = fst (snd (snd (PeerProxyStep_handle g this st c)))"
proof -
  let ?d = "PeerProxyStep_deserialize (fst (PeerProxyStep_serialize this channel))"
  let ?w = "\<lparr>client = c, dispatch = snd (PeerProxyStep_serialize this channel)\<rparr>"
  have ans: "getAnswer ?d x ?w = (fst (getAnswer this x c),
         \<lparr>client = snd (getAnswer this x c), dispatch = snd (PeerProxyStep_serialize this channel)\<rparr>)" for x
    by (simp add: PeerProxyStep_serialize_def PeerProxyStep_deserialize_def new_PeerProxyStep_def
        request_def onRequest_def split: prod.splits sum.splits)
  have tag: "wire_type (fst (PeerProxyStep_serialize this channel)) = ''peer-proxy''"
    by (simp add: PeerProxyStep_serialize_def step_type_def)
  have res: "resolve ''peer-proxy'' = Inr (PeerProxyStepDefinition, PeerProxyStep)"
    by (simp add: resolve_def StepDefinitionLookup_def StepLookup_def)
  have "fst (getAnswer ?d x ?w) = fst (getAnswer this x c)" for x
    by (simp add: ans)
  from handle_depends_on_answer_only [of ?d ?w this c, OF this] ans tag res
  show ?thesis by simp
qed


section \<open>What the closures of other steps leave alone\<close>

lemmas closure_defs = channelOpened_def listenForMessage_def messageReceived_def listenForData_def
  mediaReceived_def echoContent_def channel_arg_def track_arg_def

lemma map_parent_resolve_in [simp]: "map parent (resolve_in p ps) = map parent ps"
  by (auto simp: resolve_in_def Let_def list_eq_iff_nth_eq nth_update_any split: option.splits)

lemma map_parent_reject_in [simp]: "map parent (reject_in p f ps) = map parent ps"
  by (auto simp: reject_in_def Let_def list_eq_iff_nth_eq nth_update_any split: option.splits)

lemma skeleton_invoke: "skeleton (invoke c arg s) = skeleton s"
  by (cases c)
     (auto simp: skeleton_def closure_defs ops stream_ops Let_def map_update_same
        split: option.splits stream_ref.splits)

lemma skeleton_call: "skeleton (call c arg s) = skeleton s"
  using skeleton_invoke [of c arg "log (Invoked c) s"] by (simp add: call_def) (simp add: skeleton_def log_def)

lemma skeleton_fire: "skeleton (fire ev arg s x) = skeleton s"
  by (cases x) (simp add: fire_def skeleton_call, simp add: skeleton_def)

lemma skeleton_fire_data: "skeleton (fire_data r s x) = skeleton s"
  by (cases x; cases r) (simp_all add: fire_data_def skeleton_call unregister_def, simp_all add: skeleton_def ops map_update_same)

lemma skeleton_unregister: "skeleton (unregister r x s) = skeleton s"
  by (cases r) (simp_all add: unregister_def skeleton_def ops map_update_same)

lemma skeleton_emit: "skeleton (emit ev arg s) = skeleton s"
proof -
  have "skeleton (foldl (fire ev arg) s xs) = skeleton s" for xs
    by (induction xs arbitrary: s) (simp_all add: skeleton_fire)
  then show ?thesis by (simp add: emit_def)
qed

lemma skeleton_emit_data: "skeleton (emit_data r s) = skeleton s"
proof -
  have "skeleton (foldl (fire_data r) s xs) = skeleton s" for xs
    by (induction xs arbitrary: s) (simp_all add: skeleton_fire_data)
  then show ?thesis by (simp add: emit_data_def)
qed

lemma untouchable_skeleton: "skeleton s' = skeleton s \<Longrightarrow> untouchable p s' = untouchable p s"
  by (simp add: skeleton_def untouchable_def)

lemma filter_remove_first_other:
  "(\<And>x. R x \<Longrightarrow> \<not> P x) \<Longrightarrow> filter P (remove_first R xs) = filter P xs"
  by (induction xs) auto

lemma filter_remove_last_other:
  "(\<And>x. R x \<Longrightarrow> \<not> P x) \<Longrightarrow> filter P (remove_last R xs) = filter P xs"
proof -
  assume a: "\<And>x. R x \<Longrightarrow> \<not> P x"
  have "filter P (remove_last R xs) = rev (filter P (remove_first R (rev xs)))"
    by (simp add: remove_last_def rev_filter)
  also have "\<dots> = rev (filter P (rev xs))"
    using a by (simp add: filter_remove_first_other)
  finally show ?thesis by (simp add: rev_filter)
qed

lemma filter_remove1_other: "\<not> P x \<Longrightarrow> filter P (remove1 x xs) = filter P xs"
  by (induction xs) auto

lemma data_owned_once: "closure_pid c \<noteq> p \<Longrightarrow> data_owned p (stream_once c s) = data_owned p s"
  by (simp add: data_owned_def stream_once_def)

lemma data_owned_removeListener:
  "closure_pid c \<noteq> p \<Longrightarrow> data_owned p (stream_removeListener c s) = data_owned p s"
  by (simp add: data_owned_def stream_removeListener_def) (rule filter_remove_last_other, auto)

lemma data_owned_pause: "data_owned p (stream_pause s) = data_owned p s"
  by (simp add: data_owned_def stream_pause_def)

lemma data_owned_pipe: "data_owned p (stream_pipe s) = data_owned p s"
  by (simp add: data_owned_def stream_pipe_def)

lemma data_owned_unregister:
  "closure_pid c \<noteq> p \<Longrightarrow> data_owned p (s\<lparr>data_listeners := remove1 (b, c) (data_listeners s)\<rparr>) = data_owned p s"
  by (simp add: data_owned_def filter_remove1_other)

lemma conn_owned_removeListener:
  "closure_pid c \<noteq> p \<Longrightarrow> conn_owned p (conn_removeListener ev c s) = conn_owned p s"
  by (simp add: conn_owned_def conn_removeListener_def log_def) (rule filter_remove_last_other, auto)

lemmas data_owned_simps = data_owned_once data_owned_removeListener data_owned_pause data_owned_pipe
  data_owned_unregister

lemma registrations_invoke:
  "closure_pid c \<noteq> p \<Longrightarrow> registrations p (invoke c arg s) = registrations p s"
proof (cases c)
  case (ChannelOpened q l)
  assume "closure_pid c \<noteq> p"
  then have "conn_owned p (conn_removeListener RemoteChannelOpenEv (ChannelOpened q l) s) = conn_owned p s"
    using ChannelOpened by (simp add: conn_owned_removeListener)
  then show ?thesis
    using ChannelOpened
    by (simp add: registrations_def channelOpened_def split: option.splits)
       (simp add: conn_owned_def conn_removeListener_def ops)
next
  case (ListenForMessage q l)
  assume "closure_pid c \<noteq> p"
  then show ?thesis
    using ListenForMessage
    by (simp add: registrations_def listenForMessage_def split: option.splits)
       (simp add: conn_owned_def upd_channel_def map_update_same data_owned_simps)
next
  case (MessageReceived q l)
  assume "closure_pid c \<noteq> p"
  then have "conn_owned p (conn_removeListener ChannelOpenEv (ListenForMessage q l) s) = conn_owned p s"
    using MessageReceived by (simp add: conn_owned_removeListener)
  then show ?thesis
    using MessageReceived \<open>closure_pid c \<noteq> p\<close>
    by (simp add: registrations_def messageReceived_def Let_def)
       (simp add: conn_owned_def conn_removeListener_def ops data_owned_simps)
next
  case (ListenForData q)
  assume "closure_pid c \<noteq> p"
  then show ?thesis
    using ListenForData
    by (simp add: registrations_def listenForData_def split: option.splits)
       (simp add: conn_owned_def upd_track_def map_update_same data_owned_simps)
next
  case (MediaReceived q)
  assume "closure_pid c \<noteq> p"
  then have "conn_owned p (conn_removeListener TrackOpenEv (ListenForData q) s) = conn_owned p s"
    using MediaReceived by (simp add: conn_owned_removeListener)
  then show ?thesis
    using MediaReceived \<open>closure_pid c \<noteq> p\<close>
    by (simp add: registrations_def mediaReceived_def Let_def)
       (simp add: conn_owned_def conn_removeListener_def ops data_owned_simps)
next
  case (EchoContent q)
  then show ?thesis
    by (simp add: registrations_def echoContent_def split: option.splits stream_ref.splits)
       (simp add: conn_owned_def upd_channel_def upd_track_def map_update_same data_owned_simps)
next
  case (ResolveFn q)
  then show ?thesis
    by (simp add: registrations_def conn_owned_def promise_resolve_def)
next
  case (ResolveThunk q)
  then show ?thesis
    by (simp add: registrations_def conn_owned_def promise_resolve_def)
qed

lemma registrations_echo: "registrations p (invoke (EchoContent q) arg s) = registrations p s"
  by (simp add: registrations_def echoContent_def split: option.splits stream_ref.splits)
     (simp add: conn_owned_def upd_channel_def upd_track_def map_update_same data_owned_simps)

lemma parent_not: "Some p \<notin> set (map parent ps) \<Longrightarrow> q < length ps \<Longrightarrow> parent (ps ! q) \<noteq> Some p"
  by (metis length_map nth_map nth_mem)

lemma resolve_in_other:
  "q \<noteq> p \<Longrightarrow> Some p \<notin> set (map parent ps) \<Longrightarrow> resolve_in q ps ! p = ps ! p"
  using parent_not [of p ps q]
  by (auto simp: resolve_in_def Let_def split: option.splits)

lemma reject_in_other:
  "q \<noteq> p \<Longrightarrow> Some p \<notin> set (map parent ps) \<Longrightarrow> reject_in q f ps ! p = ps ! p"
  using parent_not [of p ps q]
  by (auto simp: reject_in_def Let_def split: option.splits)

lemma length_promises_invoke: "length (promises (invoke c arg s)) = length (promises s)"
  by (cases c)
     (auto simp: closure_defs ops Let_def split: option.splits stream_ref.splits)

lemma promise_invoke:
  "closure_pid c \<noteq> p \<Longrightarrow> untouchable p s \<Longrightarrow> promises (invoke c arg s) ! p = promises s ! p"
  by (cases c)
     (auto simp: closure_defs ops Let_def untouchable_def resolve_in_other
        split: option.splits stream_ref.splits)

lemma promises_echo: "promises (invoke (EchoContent q) arg s) = promises s"
  by (simp add: echoContent_def ops split: option.splits stream_ref.splits)

lemma invocations_invoke: "invocations p (trace (invoke c arg s)) = invocations p (trace s)"
  by (cases c)
     (auto simp: closure_defs ops Let_def invocations_def split: option.splits stream_ref.splits)

lemma invocations_call:
  "closure_pid c \<noteq> p \<Longrightarrow> invocations p (trace (call c arg s)) = invocations p (trace s)"
  using invocations_invoke [of p c arg "log (Invoked c) s"]
  by (simp add: call_def) (simp add: invocations_def log_def)

lemma settled_kept_refl [simp]: "settled_kept ps ps"
  by (simp add: settled_kept_def)

lemma settled_kept_trans: "settled_kept a b \<Longrightarrow> settled_kept b c \<Longrightarrow> settled_kept a c"
  by (auto simp: settled_kept_def)

lemma settled_kept_resolve [simp]: "settled_kept ps (resolve_in p ps)"
  by (simp add: settled_kept_def resolve_in_settled)

lemma settled_kept_reject [simp]: "settled_kept ps (reject_in p f ps)"
  by (simp add: settled_kept_def reject_in_settled)

lemma settled_kept_invoke: "settled_kept (promises s) (promises (invoke c arg s))"
  by (cases c)
     (auto simp: closure_defs ops Let_def split: option.splits stream_ref.splits)

lemma unobserved_refl [simp]: "unobserved p s s"
  by (simp add: unobserved_def)

lemma unobserved_trans: "unobserved p a b \<Longrightarrow> unobserved p b c \<Longrightarrow> unobserved p a c"
proof -
  assume 1: "unobserved p a b" and 2: "unobserved p b c"
  have "settled_kept (promises a) (promises c)"
    using 1 2 settled_kept_trans unfolding unobserved_def by blast
  moreover have "registrations p c = registrations p a"
    using 1 2 by (simp_all add: unobserved_def)
  moreover have "untouchable p c \<and> promises c ! p = promises a ! p" if "untouchable p a"
    using 1 2 that by (simp add: unobserved_def)
  ultimately show ?thesis
    by (simp add: unobserved_def)
qed

lemma unobserved_log: "unobserved p s (log x s)"
  by (simp add: unobserved_def log_def registrations_def conn_owned_def untouchable_def)

lemma unobserved_invoke: "closure_pid c \<noteq> p \<Longrightarrow> unobserved p s (invoke c arg s)"
  using untouchable_skeleton [OF skeleton_invoke, of p c arg s]
  by (simp add: unobserved_def registrations_invoke settled_kept_invoke promise_invoke)

lemma unobserved_echo: "unobserved p s (invoke (EchoContent q) arg s)"
  using untouchable_skeleton [OF skeleton_invoke, of p "EchoContent q" arg s]
    registrations_echo [of p q arg s] promises_echo [of q arg s]
  by (simp add: unobserved_def)

lemma unobserved_call:
  "closure_pid c \<noteq> p \<or> c = EchoContent p \<Longrightarrow> unobserved p s (call c arg s)"
  unfolding call_def
  using unobserved_trans [OF unobserved_log unobserved_invoke]
    unobserved_trans [OF unobserved_log unobserved_echo]
  by blast

lemma unobserved_unlisten:
  "closure_pid c \<noteq> p \<Longrightarrow> unobserved p s (s\<lparr>listeners := remove1 (ev, b, c) (listeners s)\<rparr>)"
  by (simp add: unobserved_def registrations_def conn_owned_def untouchable_def filter_remove1_other)

lemma unobserved_unregister:
  "closure_pid c \<noteq> p \<Longrightarrow> unobserved p s (unregister r (b, c) s)"
proof -
  assume a: "closure_pid c \<noteq> p"
  have d: "data_owned p (x\<lparr>data_listeners := remove1 (b, c) (data_listeners x)\<rparr>) = data_owned p x"
    for x :: "'a stream_scheme"
    using a by (rule data_owned_unregister)
  have u: "untouchable p (unregister r (b, c) s) = untouchable p s"
    by (rule untouchable_skeleton [OF skeleton_unregister])
  have "registrations p (unregister r (b, c) s) = registrations p s"
  proof (cases r)
    case (Channel i)
    have "map (data_owned p) ((channels s)[i := (\<lambda>x. x\<lparr>data_listeners := remove1 (b, c) (data_listeners x)\<rparr>) (channels s ! i)])
        = map (data_owned p) (channels s)"
      by (rule map_update_same) (rule d)
    then show ?thesis
      using Channel by (simp add: registrations_def conn_owned_def unregister_def ops)
  next
    case (Track i)
    have "map (data_owned p) ((mediaTracks s)[i := (\<lambda>x. x\<lparr>data_listeners := remove1 (b, c) (data_listeners x)\<rparr>) (mediaTracks s ! i)])
        = map (data_owned p) (mediaTracks s)"
      by (rule map_update_same) (rule d)
    then show ?thesis
      using Track by (simp add: registrations_def conn_owned_def unregister_def ops)
  qed
  moreover have "promises (unregister r (b, c) s) = promises s"
    by (cases r; simp add: unregister_def ops)
  ultimately show ?thesis
    using u by (simp add: unobserved_def)
qed

lemma unobserved_fire: "harmless p x \<Longrightarrow> unobserved p s (fire ev arg s x)"
proof -
  assume a: "harmless p x"
  obtain b c where x: "x = (b, c)" by (cases x)
  let ?s1 = "if b then s\<lparr>listeners := remove1 (ev, True, c) (listeners s)\<rparr> else s"
  have c: "closure_pid c \<noteq> p \<or> c = EchoContent p" using a x by (auto simp: harmless_def)
  have 1: "unobserved p s ?s1"
    using a x by (auto simp: harmless_def unobserved_unlisten)
  have 2: "unobserved p ?s1 (call c arg ?s1)"
    using c by (rule unobserved_call)
  have "fire ev arg s x = call c arg ?s1"
    by (simp add: fire_def x)
  then show ?thesis
    using unobserved_trans [OF 1 2] by simp
qed

lemma unobserved_fire_data: "harmless p x \<Longrightarrow> unobserved p s (fire_data r s x)"
proof -
  assume a: "harmless p x"
  obtain b c where x: "x = (b, c)" by (cases x)
  let ?s1 = "if b then unregister r (True, c) s else s"
  have c: "closure_pid c \<noteq> p \<or> c = EchoContent p" using a x by (auto simp: harmless_def)
  have 1: "unobserved p s ?s1"
    using a x by (auto simp: harmless_def unobserved_unregister)
  have 2: "unobserved p ?s1 (call c arg ?s1)" for arg
    using c by (rule unobserved_call)
  have "fire_data r s x = call c (Some r) ?s1"
    by (simp add: fire_data_def x)
  then show ?thesis
    using unobserved_trans [OF 1 2] by simp
qed

lemma unobserved_foldl_fire:
  "\<forall>x \<in> set xs. harmless p x \<Longrightarrow> unobserved p s (foldl (fire ev arg) s xs)"
proof (induction xs arbitrary: s)
  case Nil
  then show ?case by simp
next
  case (Cons x xs)
  then show ?case
    using unobserved_trans [OF unobserved_fire [of p x s ev arg] Cons.IH [of "fire ev arg s x"]]
    by simp
qed

lemma unobserved_foldl_fire_data:
  "\<forall>x \<in> set xs. harmless p x \<Longrightarrow> unobserved p s (foldl (fire_data r) s xs)"
proof (induction xs arbitrary: s)
  case Nil
  then show ?case by simp
next
  case (Cons x xs)
  then show ?case
    using unobserved_trans [OF unobserved_fire_data [of p x s r] Cons.IH [of "fire_data r s x"]]
    by simp
qed

lemma callbacks_after_pop:
  assumes "i < length xs" "write_callbacks (xs ! i) = q # qs"
  shows "set (concat (map write_callbacks (xs[i := (xs ! i)\<lparr>write_callbacks := qs\<rparr>])))
    \<subseteq> set (concat (map write_callbacks xs))"
    and "q \<in> set (concat (map write_callbacks xs))"
proof -
  show "q \<in> set (concat (map write_callbacks xs))"
    using assms by (auto intro!: bexI [of _ "xs ! i"])
  show "set (concat (map write_callbacks (xs[i := (xs ! i)\<lparr>write_callbacks := qs\<rparr>])))
    \<subseteq> set (concat (map write_callbacks xs))"
  proof
    fix x assume "x \<in> set (concat (map write_callbacks (xs[i := (xs ! i)\<lparr>write_callbacks := qs\<rparr>])))"
    then obtain ch where ch: "ch \<in> set (xs[i := (xs ! i)\<lparr>write_callbacks := qs\<rparr>])" "x \<in> set (write_callbacks ch)"
      by auto
    then have "ch = (xs ! i)\<lparr>write_callbacks := qs\<rparr> \<or> ch \<in> set xs"
      using set_update_subset_insert [of xs i] by blast
    then show "x \<in> set (concat (map write_callbacks xs))"
    proof
      assume "ch = (xs ! i)\<lparr>write_callbacks := qs\<rparr>"
      then have "x \<in> set (write_callbacks (xs ! i))" using ch assms by simp
      then show ?thesis using assms(1) by (auto intro!: bexI [of _ "xs ! i"])
    next
      assume "ch \<in> set xs"
      then show ?thesis using ch by auto
    qed
  qed
qed

lemma pop_other_fields:
  "map (data_owned p) (xs[i := (xs ! i)\<lparr>write_callbacks := qs\<rparr>]) = map (data_owned p) xs"
proof -
  have "map (data_owned p) (xs[i := (\<lambda>ch. ch\<lparr>write_callbacks := qs\<rparr>) (xs ! i)]) = map (data_owned p) xs"
    by (rule map_update_same) (simp add: data_owned_def)
  then show ?thesis by simp
qed

lemma unobserved_write_done: "unobserved p s (write_done i e s)"
proof (cases "i < length (channels s) \<and> write_callbacks (channels s ! i) \<noteq> []")
  case False
  then show ?thesis
    by (auto simp: write_done_def split: list.splits)
next
  case True
  then obtain q qs where q: "write_callbacks (channels s ! i) = q # qs"
    by (cases "write_callbacks (channels s ! i)") auto
  let ?s1 = "upd_channel i (\<lambda>ch. ch\<lparr>write_callbacks := qs\<rparr>) s"
  have wd: "write_done i e s = write_callback q e ?s1"
    using True q by (simp add: write_done_def)
  have cb: "set (concat (map write_callbacks (channels ?s1))) \<subseteq> set (concat (map write_callbacks (channels s)))"
    "q \<in> set (concat (map write_callbacks (channels s)))"
    using callbacks_after_pop [of i "channels s" q qs] True q by (simp_all add: upd_channel_def)
  have reg: "registrations p (write_callback q e ?s1) = registrations p s"
    by (cases e) (simp_all add: write_callback_def registrations_def conn_owned_def ops pop_other_fields)
  have kept: "settled_kept (promises s) (promises (write_callback q e ?s1))"
    by (cases e) (simp_all add: write_callback_def ops)
  have chans: "channels (write_callback q e ?s1) = channels ?s1"
    by (cases e) (simp_all add: write_callback_def ops)
  have pars: "map parent (promises (write_callback q e ?s1)) = map parent (promises s)"
    by (cases e) (simp_all add: write_callback_def ops)
  have unt: "untouchable p (write_callback q e ?s1) \<and> promises (write_callback q e ?s1) ! p = promises s ! p"
    if u: "untouchable p s"
  proof -
    from u cb(2) have "q \<noteq> p" by (auto simp: untouchable_def)
    moreover from u have "Some p \<notin> set (map parent (promises s))" by (simp add: untouchable_def)
    ultimately have "promises (write_callback q e ?s1) ! p = promises s ! p"
      by (cases e) (simp_all add: write_callback_def ops resolve_in_other reject_in_other)
    moreover have "untouchable p (write_callback q e ?s1)"
      using u cb(1) unfolding untouchable_def chans pars by blast
    ultimately show ?thesis by simp
  qed
  show ?thesis
    unfolding wd unobserved_def using reg kept unt by blast
qed

section \<open>Steps that run until the connection closes\<close>

lemma settled_kept_call: "settled_kept (promises s) (promises (call c arg s))"
  using settled_kept_invoke [of "log (Invoked c) s" c arg] by (simp add: call_def log_def)

lemma settled_kept_fire: "settled_kept (promises s) (promises (fire ev arg s x))"
  using settled_kept_call [of "s\<lparr>listeners := remove1 (ev, True, snd x) (listeners s)\<rparr>" "snd x" arg]
    settled_kept_call [of s "snd x" arg]
  by (cases x) (simp add: fire_def)

lemma promises_unregister: "promises (unregister r x s) = promises s"
  by (cases r) (simp_all add: unregister_def ops)

lemma settled_kept_fire_data: "settled_kept (promises s) (promises (fire_data r s x))"
  using settled_kept_call [of "unregister r (True, snd x) s" "snd x" "Some r"]
    settled_kept_call [of s "snd x" "Some r"]
  by (cases x) (simp add: fire_data_def promises_unregister)

lemma settled_kept_emit: "settled_kept (promises s) (promises (emit ev arg s))"
proof -
  have "settled_kept (promises s) (promises (foldl (fire ev arg) s xs))" for xs
  proof (induction xs arbitrary: s)
    case Nil
    then show ?case by simp
  next
    case (Cons x xs)
    show ?case
      using settled_kept_trans [OF settled_kept_fire [of s ev arg x] Cons [of "fire ev arg s x"]]
      by simp
  qed
  then show ?thesis by (simp add: emit_def)
qed

lemma settled_kept_emit_data: "settled_kept (promises s) (promises (emit_data r s))"
proof -
  have "settled_kept (promises s) (promises (foldl (fire_data r) s xs))" for xs
  proof (induction xs arbitrary: s)
    case Nil
    then show ?case by simp
  next
    case (Cons x xs)
    show ?case
      using settled_kept_trans [OF settled_kept_fire_data [of s r x] Cons [of "fire_data r s x"]]
      by simp
  qed
  then show ?thesis by (simp add: emit_data_def)
qed

text \<open>
  A property kept by each thing a connection does is kept by every event.
\<close>

lemma step_invariant:
  assumes "I s"
    and "\<And>l r s. I s \<Longrightarrow> I (add_channel l r s)"
    and "\<And>r s. I s \<Longrightarrow> I (add_track r s)"
    and "\<And>ev arg s. I s \<Longrightarrow> ev \<noteq> ConnectionClosedEv \<Longrightarrow> I (emit ev arg s)"
    and "\<And>r s. I s \<Longrightarrow> I (emit_data r s)"
    and "\<And>i e s. I s \<Longrightarrow> I (write_done i e s)"
    and "e = ConnectionClosed \<Longrightarrow> I (emit ConnectionClosedEv None s)"
  shows "I (step e s)"
proof (cases e)
  case (ChannelOpen l remote)
  have "I (emit ChannelOpenEv arg (add_channel l remote s))" for arg
    using assms(1,2,4) by simp
  moreover have "I (emit RemoteChannelOpenEv arg' (emit ChannelOpenEv arg (add_channel l remote s)))" for arg arg'
    using assms(1,2,4) by simp
  ultimately show ?thesis
    using ChannelOpen by (cases remote) (simp_all add: Let_def)
next
  case (TrackOpen remote)
  have "I (emit TrackOpenEv arg (add_track remote s))" for arg
    using assms(1,3,4) by simp
  moreover have "I (emit RemoteTrackOpenEv arg' (emit TrackOpenEv arg (add_track remote s)))" for arg arg'
    using assms(1,3,4) by simp
  ultimately show ?thesis
    using TrackOpen by (cases remote) (simp_all add: Let_def)
next
  case (ChannelData i)
  then show ?thesis using assms(1,5) by simp
next
  case (TrackData i)
  then show ?thesis using assms(1,5) by simp
next
  case (WriteDone i err)
  then show ?thesis using assms(1,6) by simp
next
  case ConnectionClosed
  then show ?thesis using assms(7) by simp
qed

lemma settled_kept_step: "settled_kept (promises s) (promises (step e s))"
proof (rule step_invariant [where I = "\<lambda>s'. settled_kept (promises s) (promises s')"])
  show "settled_kept (promises s) (promises s)" by simp
  show "settled_kept (promises s) (promises (add_channel l r s'))"
    if "settled_kept (promises s) (promises s')" for l r s'
    using that by (simp add: add_channel_def)
  show "settled_kept (promises s) (promises (add_track r s'))"
    if "settled_kept (promises s) (promises s')" for r s'
    using that by (simp add: add_track_def)
  show "settled_kept (promises s) (promises (emit ev arg s'))"
    if "settled_kept (promises s) (promises s')" for ev arg s'
    using settled_kept_trans [OF that settled_kept_emit] .
  show "settled_kept (promises s) (promises (emit_data r s'))"
    if "settled_kept (promises s) (promises s')" for r s'
    using settled_kept_trans [OF that settled_kept_emit_data] .
  show "settled_kept (promises s) (promises (write_done i e s'))"
    if "settled_kept (promises s) (promises s')" for i e s'
    using unobserved_write_done [of 0 s' i e] settled_kept_trans [OF that]
    by (simp add: unobserved_def)
  show "settled_kept (promises s) (promises (emit ConnectionClosedEv None s))"
    by (rule settled_kept_emit)
qed

lemma settled_kept_run: "settled_kept (promises s) (promises (run es s))"
proof (induction es arbitrary: s)
  case Nil
  then show ?case by (simp add: run_def)
next
  case (Cons e es)
  show ?case
    using settled_kept_trans [OF settled_kept_step [of s e] Cons [of "step e s"]]
    by (simp add: run_def)
qed

lemma run_append: "run (es @ es') s = run es' (run es s)"
  by (simp add: run_def)

lemma settled_stays:
  "p < length (promises s) \<Longrightarrow> promise_state_of p s \<noteq> Pending \<Longrightarrow>
   promise_state_of p (run es s) = promise_state_of p s"
  using settled_kept_run [of s es] by (simp add: settled_kept_def promise_state_of_def)

lemma snapshot_harmless:
  assumes "\<forall>x \<in> set (conn_owned p s). fst x = ev \<longrightarrow> harmless p (snd x)"
  shows "\<forall>x \<in> set (map snd (filter (\<lambda>(e, r). e = ev) (listeners s))). harmless p x"
proof
  fix x assume "x \<in> set (map snd (filter (\<lambda>(e, r). e = ev) (listeners s)))"
  then have m: "(ev, x) \<in> set (listeners s)" by auto
  show "harmless p x"
  proof (cases "closure_pid (snd x) = p")
    case True
    then have "(ev, x) \<in> set (conn_owned p s)"
      using m by (cases x) (auto simp: conn_owned_def)
    then show ?thesis using assms by fastforce
  next
    case False
    then show ?thesis by (simp add: harmless_def)
  qed
qed

lemma emit_unobserved:
  "\<forall>x \<in> set (conn_owned p s). fst x = ev \<longrightarrow> harmless p (snd x) \<Longrightarrow> unobserved p s (emit ev arg s)"
  unfolding emit_def by (rule unobserved_foldl_fire) (rule snapshot_harmless)

lemma data_quiet_iff:
  "data_quiet p s =
    ((\<forall>ch \<in> set (channels s). data_owned p ch = []) \<and> (\<forall>t \<in> set (mediaTracks s). data_owned p t = []))"
  by (simp add: data_quiet_def registrations_def list_all_iff)

lemma data_quiet_listeners:
  assumes "data_quiet p s"
  shows "\<forall>x \<in> set (stream_listeners r s). harmless p x"
proof
  fix x assume x: "x \<in> set (stream_listeners r s)"
  have "closure_pid (snd x) \<noteq> p"
  proof
    assume c: "closure_pid (snd x) = p"
    show False
    proof (cases r)
      case (Channel i)
      then have i: "i < length (channels s)" "x \<in> set (data_listeners (channels s ! i))"
        using x by (auto simp: stream_listeners_def split: if_splits)
      then have "x \<in> set (data_owned p (channels s ! i))"
        using c by (cases x) (auto simp: data_owned_def)
      then show False using assms i(1) by (simp add: data_quiet_iff)
    next
      case (Track i)
      then have i: "i < length (mediaTracks s)" "x \<in> set (data_listeners (mediaTracks s ! i))"
        using x by (auto simp: stream_listeners_def split: if_splits)
      then have "x \<in> set (data_owned p (mediaTracks s ! i))"
        using c by (cases x) (auto simp: data_owned_def)
      then show False using assms i(1) by (simp add: data_quiet_iff)
    qed
  qed
  then show "harmless p x" by (simp add: harmless_def)
qed

lemma emit_data_unobserved: "data_quiet p s \<Longrightarrow> unobserved p s (emit_data r s)"
  unfolding emit_data_def by (rule unobserved_foldl_fire_data) (rule data_quiet_listeners)

lemma parked_unobserved:
  assumes "parked p s" "unobserved p s s'"
  shows "parked p s'"
proof -
  have u: "untouchable p s" using assms(1) by (simp add: parked_def)
  have r: "registrations p s' = registrations p s"
    and k: "settled_kept (promises s) (promises s')"
    and t: "untouchable p s'" and e: "promises s' ! p = promises s ! p"
    using assms(2) u by (simp_all add: unobserved_def)
  have c: "conn_owned p s' = conn_owned p s"
    using r by (simp add: registrations_def)
  have d: "data_quiet p s' = data_quiet p s"
    by (simp add: data_quiet_def r)
  have l: "length (promises s') = length (promises s)"
    using k by (simp add: settled_kept_def)
  show ?thesis
    using assms(1) unfolding parked_def c d l e using t by simp
qed

lemma parked_add_channel: "parked p s \<Longrightarrow> parked p (add_channel l r s)"
  by (simp add: parked_def add_channel_def untouchable_def conn_owned_def data_quiet_iff
      new_channel_def data_owned_def)

lemma parked_add_track: "parked p s \<Longrightarrow> parked p (add_track r s)"
  by (simp add: parked_def add_track_def untouchable_def conn_owned_def data_quiet_iff
      new_track_def data_owned_def)

lemma parked_emit:
  assumes "parked p s" "ev \<noteq> ConnectionClosedEv"
  shows "parked p (emit ev arg s)"
proof -
  have "\<forall>x \<in> set (conn_owned p s). fst x = ev \<longrightarrow> harmless p (snd x)"
    using assms by (auto simp: parked_def list_all_iff harmless_def)
  then show ?thesis
    using parked_unobserved [OF assms(1) emit_unobserved] by blast
qed

lemma parked_step: "parked p s \<Longrightarrow> e \<noteq> ConnectionClosed \<Longrightarrow> parked p (step e s)"
proof (rule step_invariant [where I = "parked p"])
  show "parked p (emit_data r s')" if "parked p s'" for r s'
    using that parked_unobserved [OF that emit_data_unobserved] by (simp add: parked_def)
  show "parked p (write_done i e s')" if "parked p s'" for i e s'
    using parked_unobserved [OF that unobserved_write_done] .
qed (simp_all add: parked_add_channel parked_add_track parked_emit)

lemma parked_run: "parked p s \<Longrightarrow> ConnectionClosed \<notin> set es \<Longrightarrow> parked p (run es s)"
proof (induction es arbitrary: s)
  case Nil
  then show ?case by (simp add: run_def)
next
  case (Cons e es)
  then have "parked p (step e s)" using parked_step [of p s e] by auto
  then have "parked p (run es (step e s))" using Cons by simp
  then show ?case by (simp add: run_def)
qed

lemma foldl_establish_in:
  assumes keep: "\<And>s x. x \<in> set xs \<Longrightarrow> I s \<Longrightarrow> I (f s x)"
    and stay: "\<And>s x. x \<in> set xs \<Longrightarrow> I s \<Longrightarrow> Q s \<Longrightarrow> Q (f s x)"
    and est: "\<And>s. I s \<Longrightarrow> Q (f s i)"
    and "i \<in> set xs" and "I s"
  shows "Q (foldl f s xs) \<and> I (foldl f s xs)"
proof -
  have all: "set ys \<subseteq> set xs \<Longrightarrow> I s \<Longrightarrow> I (foldl f s ys) \<and> (Q s \<longrightarrow> Q (foldl f s ys))" for s ys
    by (induction ys arbitrary: s) (auto simp: keep stay)
  from \<open>i \<in> set xs\<close> obtain ys zs where xs: "xs = ys @ i # zs"
    by (meson split_list)
  have 1: "I (foldl f s ys)" using all [of ys s] \<open>I s\<close> xs by auto
  then have 2: "Q (f (foldl f s ys) i)" "I (f (foldl f s ys) i)"
    using est keep \<open>i \<in> set xs\<close> by blast+
  then show ?thesis
    using all [of zs "f (foldl f s ys) i"] by (auto simp: xs)
qed

lemma own_unobserved:
  "settles_only_by_own p s \<Longrightarrow> unobserved p s s' \<Longrightarrow> settles_only_by_own p s'"
  by (auto simp: settles_only_by_own_def unobserved_def settled_kept_def)

lemma own_resolve:
  assumes "settles_only_by_own p s"
  shows "settles_only_by_own p (fire ev arg s (False, ResolveFn p))"
    and "promise_state_of p (fire ev arg s (False, ResolveFn p)) = Fulfilled"
proof -
  let ?s' = "fire ev arg s (False, ResolveFn p)"
  have u: "untouchable p ?s'"
    using untouchable_skeleton [OF skeleton_fire, of p ev arg s] assms
    by (simp add: settles_only_by_own_def)
  have pr: "promises ?s' = resolve_in p (promises s)"
    by (simp add: fire_def call_def ops)
  have f: "pstate (resolve_in p (promises s) ! p) = Fulfilled"
    and n: "parent (resolve_in p (promises s) ! p) = None"
    using assms by (auto simp: settles_only_by_own_def resolve_in_def)
  show "settles_only_by_own p ?s'"
    using u f n assms by (simp add: settles_only_by_own_def pr)
  show "promise_state_of p ?s' = Fulfilled"
    using f by (simp add: promise_state_of_def pr)
qed

lemma parked_close:
  assumes "parked p s"
  shows "promise_state_of p (step ConnectionClosed s) = Fulfilled"
proof -
  let ?xs = "map snd (filter (\<lambda>(e, r). e = ConnectionClosedEv) (listeners s))"
  have mem: "(False, ResolveFn p) \<in> set ?xs"
    using assms by (force simp: parked_def conn_owned_def)
  have each: "x = (False, ResolveFn p) \<or> harmless p x" if "x \<in> set ?xs" for x
  proof (cases "closure_pid (snd x) = p")
    case True
    from that have "(ConnectionClosedEv, x) \<in> set (listeners s)" by auto
    then have "(ConnectionClosedEv, x) \<in> set (conn_owned p s)"
      using True by (cases x) (auto simp: conn_owned_def)
    then show ?thesis
      using assms by (auto simp: parked_def list_all_iff harmless_def)
  next
    case False
    then show ?thesis by (simp add: harmless_def)
  qed
  have start: "settles_only_by_own p s"
    using assms by (simp add: parked_def settles_only_by_own_def)
  have "promise_state_of p (foldl (fire ConnectionClosedEv None) s ?xs) = Fulfilled
      \<and> settles_only_by_own p (foldl (fire ConnectionClosedEv None) s ?xs)"
  proof (rule foldl_establish_in
      [where I = "settles_only_by_own p" and Q = "\<lambda>s. promise_state_of p s = Fulfilled"
        and i = "(False, ResolveFn p)"])
    show "settles_only_by_own p (fire ConnectionClosedEv None s' x)"
      if "x \<in> set ?xs" "settles_only_by_own p s'" for s' x
      using each [OF that(1)] own_resolve(1) [OF that(2)] own_unobserved [OF that(2) unobserved_fire]
      by blast
    show "promise_state_of p (fire ConnectionClosedEv None s' x) = Fulfilled"
      if "x \<in> set ?xs" "settles_only_by_own p s'" "promise_state_of p s' = Fulfilled" for s' x
      using settled_kept_fire [of s' ConnectionClosedEv None x] that(2,3)
      by (simp add: settled_kept_def promise_state_of_def settles_only_by_own_def)
    show "promise_state_of p (fire ConnectionClosedEv None s' (False, ResolveFn p)) = Fulfilled"
      if "settles_only_by_own p s'" for s'
      using own_resolve(2) [OF that] .
    show "(False, ResolveFn p) \<in> set ?xs" by (rule mem)
    show "settles_only_by_own p s" by (rule start)
  qed
  then show ?thesis by (simp add: emit_def)
qed

lemma perpetual_parked:
  assumes "parked p s" "ConnectionClosed \<notin> set es"
  shows "perpetual p s es es'"
proof -
  have 1: "parked p (run es s)" using assms by (rule parked_run)
  then have a: "promise_state_of p (run es s) = Pending"
    by (simp add: parked_def promise_state_of_def)
  have b: "promise_state_of p (step ConnectionClosed (run es s)) = Fulfilled"
    using 1 by (rule parked_close)
  have len: "p < length (promises (step ConnectionClosed (run es s)))"
    using 1 settled_kept_step [of "run es s" ConnectionClosed]
    by (simp add: parked_def settled_kept_def)
  have c: "promise_state_of p (run es' (step ConnectionClosed (run es s))) = Fulfilled"
    using settled_stays [OF len, of es'] b by simp
  show ?thesis
    using a b c by (simp add: perpetual_def run_def)
qed

lemma prepared_unobserved:
  assumes "prepared p s K" "unobserved p s s'"
  shows "prepared p s' K"
proof -
  have u: "untouchable p s" using assms(1) by (simp add: prepared_def)
  have r: "registrations p s' = registrations p s"
    and k: "settled_kept (promises s) (promises s')"
    and t: "untouchable p s'" and e: "promises s' ! p = promises s ! p"
    using assms(2) u by (simp_all add: unobserved_def)
  have c: "conn_owned p s' = conn_owned p s"
    using r by (simp add: registrations_def)
  have d: "data_quiet p s' = data_quiet p s"
    by (simp add: data_quiet_def r)
  have l: "length (promises s') = length (promises s)"
    using k by (simp add: settled_kept_def)
  show ?thesis
    using assms(1) unfolding prepared_def c d l e using t by simp
qed

lemma prepared_alloc:
  "fresh (length (promises st)) st \<Longrightarrow> prepared (length (promises st)) (alloc_promise st) []"
  by (simp add: fresh_def prepared_def alloc_promise_def untouchable_def conn_owned_def
      data_quiet_iff)

lemma prepared_on:
  "prepared p s K \<Longrightarrow> closure_pid c = p \<Longrightarrow> prepared p (conn_on ev c s) (K @ [(ev, False, c)])"
  by (simp add: prepared_def conn_on_def log_def untouchable_def conn_owned_def data_quiet_iff)

lemma parked_from_prepared:
  assumes "prepared p s K" "list_all (\<lambda>x. snd x = (False, EchoContent p)) K"
  shows "parked p (conn_on ConnectionClosedEv (ResolveFn p) s)"
proof -
  have "prepared p (conn_on ConnectionClosedEv (ResolveFn p) s) (K @ [(ConnectionClosedEv, False, ResolveFn p)])"
    using assms(1) by (rule prepared_on) simp
  then show ?thesis
    using assms(2) by (auto simp: prepared_def parked_def list_all_iff)
qed

lemma unobserved_forEach_echo:
  "unobserved p s (foldl (\<lambda>s i. call (EchoContent p) (f i) s) s xs)"
proof (induction xs arbitrary: s)
  case Nil
  then show ?case by simp
next
  case (Cons x xs)
  have 1: "unobserved p s (call (EchoContent p) (f x) s)"
    by (rule unobserved_call) simp
  show ?case
    using unobserved_trans [OF 1 Cons [of "call (EchoContent p) (f x) s"]] by simp
qed

lemma echo_parks:
  assumes "fresh (length (promises st)) st"
  shows "fst (EchoStep_handle st) = length (promises st)"
    and "parked (length (promises st)) (snd (EchoStep_handle st))"
proof -
  let ?p = "length (promises st)"
  let ?e = "EchoContent ?p"
  let ?s3 = "conn_on TrackOpenEv ?e (conn_on ChannelOpenEv ?e (alloc_promise st))"
  let ?s4 = "log GetChannels ?s3"
  let ?s5 = "foldl (\<lambda>s i. call ?e (Some (Channel i)) s) ?s4 [0..<length (channels ?s4)]"
  let ?s6 = "log GetMediaTracks ?s5"
  let ?s7 = "foldl (\<lambda>s i. call ?e (Some (Track i)) s) ?s6 [0..<length (mediaTracks ?s6)]"
  let ?K = "[(ChannelOpenEv, False, ?e), (TrackOpenEv, False, ?e)]"
  show "fst (EchoStep_handle st) = ?p"
    by (simp add: EchoStep_handle_def Let_def)
  have 3: "prepared ?p ?s3 ?K"
    using prepared_on [OF prepared_on [OF prepared_alloc [OF assms], of ?e ChannelOpenEv], of ?e TrackOpenEv]
    by simp
  have 4: "prepared ?p ?s4 ?K"
    using prepared_unobserved [OF 3 unobserved_log] .
  have 5: "prepared ?p ?s5 ?K"
    using prepared_unobserved [OF 4 unobserved_forEach_echo] .
  have 6: "prepared ?p ?s6 ?K"
    using prepared_unobserved [OF 5 unobserved_log] .
  have 7: "prepared ?p ?s7 ?K"
    using prepared_unobserved [OF 6 unobserved_forEach_echo] .
  have "parked ?p (conn_on ConnectionClosedEv (ResolveFn ?p) ?s7)"
    by (rule parked_from_prepared [OF 7]) simp
  then show "parked ?p (snd (EchoStep_handle st))"
    by (simp add: EchoStep_handle_def Let_def)
qed

lemma fresh_rtc: "fresh p (st\<lparr>rtc_connections := x\<rparr>) = fresh p st"
  by (simp add: fresh_def untouchable_def conn_owned_def data_quiet_iff)

lemma prepared_frame:
  "prepared p s K \<Longrightarrow> prepared p (proxyTrafficTo i s) K"
  "prepared p s K \<Longrightarrow> prepared p (rtc_setRemoteDescription i a s) K"
  "prepared p s K \<Longrightarrow> prepared p (s\<lparr>rtc_connections := x\<rparr>) K"
  "prepared p s K \<Longrightarrow> prepared p (log y s) K"
  by (simp_all add: prepared_def proxyTrafficTo_def rtc_setRemoteDescription_def log_def
      untouchable_def conn_owned_def data_quiet_iff)

lemma peer_proxy_parks:
  assumes "fresh (length (promises st)) st"
    and "g (length (rtc_connections st)) = Inr x"
    and "fst (getAnswer this x w) = Inr a"
  shows "fst (PeerProxyStep_handle g this st w) = length (promises st)"
    and "parked (length (promises st)) (fst (snd (snd (PeerProxyStep_handle g this st w))))"
proof -
  let ?p = "length (promises st)"
  let ?n = "length (rtc_connections st)"
  let ?s2 = "(alloc_promise st)\<lparr>rtc_connections := rtc_connections st @ [new_RTCConnection]\<rparr>"
  let ?s4 = "proxyTrafficTo ?n (rtc_setRemoteDescription ?n a ?s2)"
  obtain w1 where ga: "getAnswer this x w = (Inr a, w1)"
    using assms(3) by (cases "getAnswer this x w") auto
  have h: "PeerProxyStep_handle g this st w =
      (?p, this\<lparr>externalConnections := externalConnections this @ [?n]\<rparr>,
       conn_on ConnectionClosedEv (ResolveFn ?p) ?s4, w1)"
    using assms(2) ga by (simp add: PeerProxyStep_handle_def Let_def alloc_promise_def)
  show "fst (PeerProxyStep_handle g this st w) = ?p"
    by (simp add: h)
  have "prepared ?p ?s4 []"
    by (intro prepared_frame prepared_alloc assms(1))
  then have "parked ?p (conn_on ConnectionClosedEv (ResolveFn ?p) ?s4)"
    by (rule parked_from_prepared) simp
  then show "parked ?p (fst (snd (snd (PeerProxyStep_handle g this st w))))"
    by (simp add: h)
qed

lemma dynamic_proxy_parks:
  assumes "fresh (length (promises st)) st"
  shows "fst (DynamicProxyStep_handle None this st) = length (promises st)"
    and "parked (length (promises st)) (snd (snd (DynamicProxyStep_handle None this st)))"
proof -
  let ?p = "length (promises st)"
  show "fst (DynamicProxyStep_handle None this st) = ?p"
    by (simp add: DynamicProxyStep_handle_def Let_def)
  have "prepared ?p (log CallProxyTrafficToExternalConnection (alloc_promise st)) []"
    by (intro prepared_frame prepared_alloc assms(1))
  then have "parked ?p (conn_on ConnectionClosedEv (ResolveFn ?p)
      (log CallProxyTrafficToExternalConnection (alloc_promise st)))"
    by (rule parked_from_prepared) simp
  then show "parked ?p (snd (snd (DynamicProxyStep_handle None this st)))"
    by (simp add: DynamicProxyStep_handle_def Let_def)
qed

lemma rejected_stays:
  assumes "p < length (promises s)" "promise_state_of p s = Rejected f"
  shows "promise_state_of p (run es s) = Rejected f"
  using settled_stays [OF assms(1), of es] assms(2) by simp

lemma peer_proxy_fails:
  "g (length (rtc_connections st)) = Inl e \<Longrightarrow>
   fst (PeerProxyStep_handle g this st w) = length (promises st)
   \<and> length (promises st) < length (promises (fst (snd (snd (PeerProxyStep_handle g this st w)))))
   \<and> promise_state_of (length (promises st)) (fst (snd (snd (PeerProxyStep_handle g this st w))))
       = Rejected (TransportFailed e)"
  "g (length (rtc_connections st)) = Inr x \<Longrightarrow> fst (getAnswer this x w) = Inl e \<Longrightarrow>
   fst (PeerProxyStep_handle g this st w) = length (promises st)
   \<and> length (promises st) < length (promises (fst (snd (snd (PeerProxyStep_handle g this st w)))))
   \<and> promise_state_of (length (promises st)) (fst (snd (snd (PeerProxyStep_handle g this st w))))
       = Rejected (NegotiationFailed e)"
  by (auto simp: PeerProxyStep_handle_def Let_def ops promise_state_of_def reject_in_def
      split: prod.splits sum.splits)

lemma dynamic_proxy_fails:
  "fst (DynamicProxyStep_handle (Some e) this st) = length (promises st)
   \<and> length (promises st) < length (promises (snd (snd (DynamicProxyStep_handle (Some e) this st))))
   \<and> promise_state_of (length (promises st)) (snd (snd (DynamicProxyStep_handle (Some e) this st)))
       = Rejected (TransportFailed e)"
  by (simp add: DynamicProxyStep_handle_def Let_def ops promise_state_of_def reject_in_def)

section \<open>A wait for a message fires once\<close>

lemma unobserved_facts:
  assumes "unobserved p s s'"
  shows "conn_owned p s' = conn_owned p s"
    and "map (data_owned p) (channels s') = map (data_owned p) (channels s)"
    and "map (data_owned p) (mediaTracks s') = map (data_owned p) (mediaTracks s)"
    and "length (promises s') = length (promises s)"
    and "data_quiet p s' = data_quiet p s"
    and "q < length (promises s) \<Longrightarrow> pstate (promises s ! q) \<noteq> Pending \<Longrightarrow>
         pstate (promises s' ! q) = pstate (promises s ! q)"
    and "untouchable p s \<Longrightarrow> untouchable p s' \<and> promises s' ! p = promises s ! p"
  using assms by (simp_all add: unobserved_def registrations_def settled_kept_def data_quiet_def)

lemma waiting_message_unobserved:
  assumes "waiting_message p l s" "unobserved p s s'"
  shows "waiting_message p l s'"
proof -
  have u: "untouchable p s" using assms(1) by (simp add: waiting_message_def)
  note f = unobserved_facts [OF assms(2)]
  show ?thesis
    using assms(1) f(7) [OF u] unfolding waiting_message_def f(1,2,3,4) by simp
qed

lemma finished_unobserved:
  assumes "finished p s" "unobserved p s s'"
  shows "finished p s'"
proof -
  note f = unobserved_facts [OF assms(2)]
  have "pstate (promises s' ! p) = Fulfilled"
    using f(6) [of p] assms(1) by (simp add: finished_def)
  then show ?thesis
    using assms(1) unfolding finished_def f(1,4,5) by simp
qed

lemma not_owned_harmless: "closure_pid (snd x) \<noteq> p \<Longrightarrow> harmless p x"
  by (simp add: harmless_def)

lemma invocations_fire:
  "closure_pid (snd x) \<noteq> p \<Longrightarrow> invocations p (trace (fire ev arg s x)) = invocations p (trace s)"
  using invocations_call [of "snd x" p arg]
  by (cases x) (simp add: fire_def)

lemma trace_unregister: "trace (unregister r x s) = trace s"
  by (cases r) (simp_all add: unregister_def ops)

lemma invocations_fire_data:
  "closure_pid (snd x) \<noteq> p \<Longrightarrow> invocations p (trace (fire_data r s x)) = invocations p (trace s)"
  using invocations_call [of "snd x" p "Some r"]
  by (cases x) (simp add: fire_data_def trace_unregister)

lemma invocations_foldl_fire:
  "\<forall>x \<in> set xs. closure_pid (snd x) \<noteq> p \<Longrightarrow>
   invocations p (trace (foldl (fire ev arg) s xs)) = invocations p (trace s)"
  by (induction xs arbitrary: s) (simp_all add: invocations_fire)

lemma invocations_foldl_fire_data:
  "\<forall>x \<in> set xs. closure_pid (snd x) \<noteq> p \<Longrightarrow>
   invocations p (trace (foldl (fire_data r) s xs)) = invocations p (trace s)"
  by (induction xs arbitrary: s) (simp_all add: invocations_fire_data)

lemma snapshot_not_owned:
  assumes "\<forall>x \<in> set (conn_owned p s). fst x \<noteq> ev"
  shows "\<forall>x \<in> set (map snd (filter (\<lambda>(e, r). e = ev) (listeners s))). closure_pid (snd x) \<noteq> p"
proof
  fix x assume "x \<in> set (map snd (filter (\<lambda>(e, r). e = ev) (listeners s)))"
  then have m: "(ev, x) \<in> set (listeners s)" by auto
  show "closure_pid (snd x) \<noteq> p"
  proof
    assume "closure_pid (snd x) = p"
    then have "(ev, x) \<in> set (conn_owned p s)"
      using m by (cases x) (auto simp: conn_owned_def)
    then show False using assms by fastforce
  qed
qed

lemma stream_not_owned:
  assumes "filter (\<lambda>x. closure_pid (snd x) = p) (stream_listeners r s) = []"
  shows "\<forall>x \<in> set (stream_listeners r s). closure_pid (snd x) \<noteq> p"
  using assms by (simp add: filter_empty_conv)

lemma data_quiet_not_owned:
  assumes "data_quiet p s"
  shows "\<forall>x \<in> set (stream_listeners r s). closure_pid (snd x) \<noteq> p"
proof
  fix x assume x: "x \<in> set (stream_listeners r s)"
  show "closure_pid (snd x) \<noteq> p"
  proof
    assume c: "closure_pid (snd x) = p"
    show False
    proof (cases r)
      case (Channel i)
      then have i: "i < length (channels s)" "x \<in> set (data_listeners (channels s ! i))"
        using x by (auto simp: stream_listeners_def split: if_splits)
      then have "x \<in> set (data_owned p (channels s ! i))"
        using c by (cases x) (auto simp: data_owned_def)
      then show False using assms i(1) by (simp add: data_quiet_iff)
    next
      case (Track i)
      then have i: "i < length (mediaTracks s)" "x \<in> set (data_listeners (mediaTracks s ! i))"
        using x by (auto simp: stream_listeners_def split: if_splits)
      then have "x \<in> set (data_owned p (mediaTracks s ! i))"
        using c by (cases x) (auto simp: data_owned_def)
      then show False using assms i(1) by (simp add: data_quiet_iff)
    qed
  qed
qed

lemma silent_step: "silent p t s \<Longrightarrow> silent p t (step e s)"
proof (rule step_invariant [where I = "silent p t"])
  show "silent p t (add_channel l r s')" if "silent p t s'" for l r s'
    using that
    by (simp add: silent_def finished_def add_channel_def conn_owned_def data_quiet_iff
        new_channel_def data_owned_def)
  show "silent p t (add_track r s')" if "silent p t s'" for r s'
    using that
    by (simp add: silent_def finished_def add_track_def conn_owned_def data_quiet_iff
        new_track_def data_owned_def)
  show "silent p t (emit ev arg s')" if "silent p t s'" for ev arg s'
  proof -
    have n: "\<forall>x \<in> set (map snd (filter (\<lambda>(e, r). e = ev) (listeners s'))). closure_pid (snd x) \<noteq> p"
      by (rule snapshot_not_owned) (use that in \<open>simp add: silent_def finished_def\<close>)
    then have "unobserved p s' (emit ev arg s')"
      unfolding emit_def by (intro unobserved_foldl_fire ballI not_owned_harmless) blast
    moreover have "invocations p (trace (emit ev arg s')) = invocations p (trace s')"
      unfolding emit_def using n by (rule invocations_foldl_fire)
    ultimately show ?thesis
      using that finished_unobserved by (simp add: silent_def) blast
  qed
  then show "silent p t (emit ConnectionClosedEv None s)" if "silent p t s"
    using that by blast
  show "silent p t (emit_data r s')" if "silent p t s'" for r s'
  proof -
    have n: "\<forall>x \<in> set (stream_listeners r s'). closure_pid (snd x) \<noteq> p"
      by (rule data_quiet_not_owned) (use that in \<open>simp add: silent_def finished_def\<close>)
    then have "unobserved p s' (emit_data r s')"
      unfolding emit_data_def by (intro unobserved_foldl_fire_data ballI not_owned_harmless) blast
    moreover have "invocations p (trace (emit_data r s')) = invocations p (trace s')"
      unfolding emit_data_def using n by (rule invocations_foldl_fire_data)
    ultimately show ?thesis
      using that finished_unobserved by (simp add: silent_def) blast
  qed
  show "silent p t (write_done i e s')" if "silent p t s'" for i e s'
  proof -
    have "trace (write_done i e s') = trace s'"
      by (simp add: write_done_def write_callback_def ops split: list.splits option.splits)
    then show ?thesis
      using that finished_unobserved [OF _ unobserved_write_done] by (simp add: silent_def)
  qed
qed

lemma silent_run: "silent p t s \<Longrightarrow> silent p t (run es s)"
proof (induction es arbitrary: s)
  case Nil
  then show ?case by (simp add: run_def)
next
  case (Cons e es)
  then have "silent p t (run es (step e s))" by (simp add: silent_step)
  then show ?case by (simp add: run_def)
qed

lemma data_owned_once_own:
  "closure_pid c = p \<Longrightarrow> data_owned p (stream_once c s) = data_owned p s @ [(True, c)]"
  by (simp add: data_owned_def stream_once_def)

lemma list_all_map_update:
  "list_all P (map f xs) \<Longrightarrow> P (f y) \<Longrightarrow> list_all P (map f (xs[i := y]))"
  by (auto simp: list_all_length nth_update_any)

lemma listen_step:
  assumes w: "waiting_message p l s"
    and e: "i < length (channels s) \<longrightarrow> data_owned p (channels s ! i) = []"
  shows "waiting_message p l (call (ListenForMessage p l) (Some (Channel i)) s)"
    and "length (channels (call (ListenForMessage p l) (Some (Channel i)) s)) = length (channels s)"
    and "j \<noteq> i \<Longrightarrow> channels (call (ListenForMessage p l) (Some (Channel i)) s) ! j = channels s ! j"
proof -
  let ?s' = "call (ListenForMessage p l) (Some (Channel i)) s"
  let ?M = "MessageReceived p l"
  have u: "untouchable p ?s'"
    using untouchable_skeleton [OF skeleton_call, of p "ListenForMessage p l" "Some (Channel i)" s] w
    by (simp add: waiting_message_def)
  have same: "listeners ?s' = listeners s" "promises ?s' = promises s" "mediaTracks ?s' = mediaTracks s"
    by (simp_all add: call_def listenForMessage_def ops split: option.splits)
  have ch: "channels ?s' = channels s
      \<or> (i < length (channels s) \<and> channels ?s' = (channels s)[i := stream_once ?M (channels s ! i)])"
    by (auto simp: call_def listenForMessage_def channel_arg_def ops split: option.splits)
  show "length (channels ?s') = length (channels s)"
    using ch by auto
  show "channels ?s' ! j = channels s ! j" if "j \<noteq> i"
    using ch that by auto
  have "list_all (\<lambda>x. x = [] \<or> x = [(True, ?M)]) (map (data_owned p) (channels ?s'))"
  proof -
    from ch show ?thesis
    proof
      assume "channels ?s' = channels s"
      then show ?thesis using w by (simp add: waiting_message_def)
    next
      assume a: "i < length (channels s) \<and> channels ?s' = (channels s)[i := stream_once ?M (channels s ! i)]"
      then have "data_owned p (stream_once ?M (channels s ! i)) = [(True, ?M)]"
        using e by (simp add: data_owned_once_own)
      then show ?thesis
        using a w list_all_map_update
          [of "\<lambda>x. x = [] \<or> x = [(True, ?M)]" "data_owned p" "channels s" "stream_once ?M (channels s ! i)" i]
        by (simp add: waiting_message_def)
    qed
  qed
  then show "waiting_message p l ?s'"
    using w u by (simp add: waiting_message_def conn_owned_def same)
qed

lemma listen_forEach:
  assumes "waiting_message p l s" "distinct xs"
    and "\<forall>i \<in> set xs. i < length (channels s) \<longrightarrow> data_owned p (channels s ! i) = []"
  shows "waiting_message p l (foldl (\<lambda>s i. call (ListenForMessage p l) (Some (Channel i)) s) s xs)"
  using assms
proof (induction xs arbitrary: s)
  case Nil
  then show ?case by simp
next
  case (Cons x xs)
  let ?s' = "call (ListenForMessage p l) (Some (Channel x)) s"
  have e: "x < length (channels s) \<longrightarrow> data_owned p (channels s ! x) = []"
    using Cons.prems(3) by simp
  note st = listen_step [OF Cons.prems(1) e]
  have "\<forall>i \<in> set xs. i < length (channels ?s') \<longrightarrow> data_owned p (channels ?s' ! i) = []"
  proof
    fix i assume i: "i \<in> set xs"
    then have "i \<noteq> x" using Cons.prems(2) by auto
    then show "i < length (channels ?s') \<longrightarrow> data_owned p (channels ?s' ! i) = []"
      using st(2) st(3) [of i] Cons.prems(3) i by simp
  qed
  then show ?case
    using Cons.IH [OF st(1)] Cons.prems(2) by simp
qed

lemma waiting_from_prepared:
  "prepared p s [(ChannelOpenEv, False, ListenForMessage p l)] \<Longrightarrow> waiting_message p l s"
  by (auto simp: prepared_def waiting_message_def data_quiet_iff list_all_iff)

lemma wait_for_message_waits:
  assumes "fresh (length (promises st)) st"
  shows "fst (WaitForMessageStep_handle l st) = length (promises st)"
    and "waiting_message (length (promises st)) l (snd (WaitForMessageStep_handle l st))"
proof -
  let ?p = "length (promises st)"
  let ?L = "ListenForMessage ?p l"
  let ?s3 = "log GetChannels (conn_on ChannelOpenEv ?L (alloc_promise st))"
  show "fst (WaitForMessageStep_handle l st) = ?p"
    by (simp add: WaitForMessageStep_handle_def Let_def)
  have "prepared ?p (conn_on ChannelOpenEv ?L (alloc_promise st)) ([] @ [(ChannelOpenEv, False, ?L)])"
    by (rule prepared_on [OF prepared_alloc [OF assms]]) simp
  then have 3: "prepared ?p ?s3 [(ChannelOpenEv, False, ?L)]"
    using prepared_frame(4) by simp
  have q: "\<forall>i \<in> set [0..<length (channels ?s3)]. i < length (channels ?s3) \<longrightarrow> data_owned ?p (channels ?s3 ! i) = []"
    using 3 by (simp add: prepared_def data_quiet_iff)
  have "waiting_message ?p l (foldl (\<lambda>s i. call ?L (Some (Channel i)) s) ?s3 [0..<length (channels ?s3)])"
    by (rule listen_forEach [OF waiting_from_prepared [OF 3] _ q]) simp
  then show "waiting_message ?p l (snd (WaitForMessageStep_handle l st))"
    by (simp add: WaitForMessageStep_handle_def Let_def)
qed

lemma filter_remove_first_own:
  "(\<And>x. R x \<Longrightarrow> P x) \<Longrightarrow> filter P (remove_first R xs) = remove_first R (filter P xs)"
  by (induction xs) auto

lemma filter_remove_last_own:
  "(\<And>x. R x \<Longrightarrow> P x) \<Longrightarrow> filter P (remove_last R xs) = remove_last R (filter P xs)"
proof -
  assume a: "\<And>x. R x \<Longrightarrow> P x"
  have "filter P (remove_last R xs) = rev (filter P (remove_first R (rev xs)))"
    by (simp add: remove_last_def rev_filter)
  also have "\<dots> = rev (remove_first R (filter P (rev xs)))"
    using a by (simp add: filter_remove_first_own)
  finally show ?thesis by (simp add: remove_last_def rev_filter)
qed

lemma remove_last_short [simp]:
  "remove_last R [] = []" "remove_last R [x] = (if R x then [] else [x])"
  by (simp_all add: remove_last_def)

lemma data_owned_removeListener_own:
  "closure_pid c = p \<Longrightarrow>
   data_owned p (stream_removeListener c s) = remove_last (\<lambda>(one_shot, c'). c' = c) (data_owned p s)"
  by (simp add: data_owned_def stream_removeListener_def) (rule filter_remove_last_own, auto)

lemma conn_owned_removeListener_own:
  "closure_pid c = p \<Longrightarrow>
   conn_owned p (conn_removeListener ev c s)
   = remove_last (\<lambda>(e, one_shot, c'). e = ev \<and> c' = c) (conn_owned p s)"
  by (simp add: conn_owned_def conn_removeListener_def log_def) (rule filter_remove_last_own, auto)

lemma data_owned_remove1:
  "data_owned p (s\<lparr>data_listeners := remove1 x (data_listeners s)\<rparr>) = remove1 x (data_owned p s)"
  by (simp add: data_owned_def filter_remove1)

lemma snapshot_owned:
  "filter (\<lambda>x. closure_pid (snd x) = p) (map snd (filter (\<lambda>(e, r). e = ev) (listeners s)))
   = map snd (filter (\<lambda>(e, r). e = ev) (conn_owned p s))"
  by (simp add: conn_owned_def filter_map comp_def split_def conj_commute)

lemma stream_owned:
  "filter (\<lambda>x. closure_pid (snd x) = p) (stream_listeners r s)
   = (case r of
        Channel i \<Rightarrow> if i < length (channels s) then data_owned p (channels s ! i) else []
      | Track i \<Rightarrow> if i < length (mediaTracks s) then data_owned p (mediaTracks s ! i) else [])"
  by (simp add: stream_listeners_def data_owned_def split_def split: stream_ref.splits)

lemma filter_single_split:
  assumes "filter P xs = [x]"
  shows "\<exists>ys zs. xs = ys @ x # zs \<and> (\<forall>y \<in> set ys. \<not> P y) \<and> (\<forall>z \<in> set zs. \<not> P z)"
proof -
  from assms obtain us vs where "xs = us @ x # vs" "\<forall>u \<in> set us. \<not> P u" "[] = filter P vs"
    unfolding filter_eq_Cons_iff by blast
  then show ?thesis
    by (metis filter_empty_conv)
qed

lemma waiting_channel_open:
  assumes "waiting_message p l s"
  shows "waiting_message p l
    (emit ChannelOpenEv (Some (Channel (length (channels s)))) (add_channel lb r s))"
proof -
  let ?i = "length (channels s)"
  let ?s1 = "add_channel lb r s"
  let ?L = "ListenForMessage p l"
  let ?xs = "map snd (filter (\<lambda>(e, r). e = ChannelOpenEv) (listeners ?s1))"
  have w1: "waiting_message p l ?s1"
    using assms
    by (simp add: waiting_message_def add_channel_def untouchable_def conn_owned_def
        new_channel_def data_owned_def)
  have i1: "?i < length (channels ?s1)" "data_owned p (channels ?s1 ! ?i) = []"
    by (simp_all add: add_channel_def new_channel_def data_owned_def)
  have "filter (\<lambda>x. closure_pid (snd x) = p) ?xs = [(False, ?L)]"
    using w1 by (simp add: snapshot_owned waiting_message_def)
  then obtain ys zs where xs: "?xs = ys @ (False, ?L) # zs"
    and ys: "\<forall>y \<in> set ys. closure_pid (snd y) \<noteq> p" and zs: "\<forall>z \<in> set zs. closure_pid (snd z) \<noteq> p"
    using filter_single_split [of "\<lambda>x. closure_pid (snd x) = p" ?xs "(False, ?L)"] by blast
  let ?f = "fire ChannelOpenEv (Some (Channel ?i))"
  let ?s2 = "foldl ?f ?s1 ys"
  have u2: "unobserved p ?s1 ?s2"
    by (intro unobserved_foldl_fire ballI not_owned_harmless) (use ys in blast)
  have w2: "waiting_message p l ?s2"
    using waiting_message_unobserved [OF w1 u2] .
  have "map (data_owned p) (channels ?s2) = map (data_owned p) (channels ?s1)"
    using unobserved_facts(2) [OF u2] .
  then have i2: "?i < length (channels ?s2) \<longrightarrow> data_owned p (channels ?s2 ! ?i) = []"
    using i1 by (metis length_map nth_map)
  have f: "?f ?s2 (False, ?L) = call ?L (Some (Channel ?i)) ?s2"
    by (simp add: fire_def)
  have w3: "waiting_message p l (?f ?s2 (False, ?L))"
    unfolding f by (rule listen_step(1) [OF w2 i2])
  have u4: "unobserved p (?f ?s2 (False, ?L)) (foldl ?f (?f ?s2 (False, ?L)) zs)"
    by (intro unobserved_foldl_fire ballI not_owned_harmless) (use zs in blast)
  have "waiting_message p l (foldl ?f ?s1 ?xs)"
    unfolding xs using waiting_message_unobserved [OF w3 u4] by simp
  then show ?thesis
    by (simp add: emit_def)
qed

lemma waiting_emit_other:
  assumes "waiting_message p l s" "ev \<noteq> ChannelOpenEv"
  shows "waiting_message p l (emit ev arg s)"
proof -
  have "\<forall>x \<in> set (conn_owned p s). fst x = ev \<longrightarrow> harmless p (snd x)"
    using assms by (simp add: waiting_message_def)
  then show ?thesis
    using waiting_message_unobserved [OF assms(1) emit_unobserved] by blast
qed

lemma update_all:
  assumes "\<forall>x \<in> set xs. P x" "i < length xs \<Longrightarrow> P y"
  shows "\<forall>x \<in> set (xs[i := y]). P x"
proof (cases "i < length xs")
  case True
  then show ?thesis
    using assms set_update_subset_insert [of xs i y] by auto
next
  case False
  then have "xs[i := y] = xs" by (simp add: list_update_beyond)
  then show ?thesis using assms(1) by simp
qed

lemma message_fires:
  assumes w: "waiting_message p l s"
  shows "finished p (fire_data r s (True, MessageReceived p l))"
proof -
  let ?M = "MessageReceived p l"
  let ?L = "ListenForMessage p l"
  let ?sa = "log (Invoked ?M) (unregister r (True, ?M) s)"
  let ?g = "\<lambda>ch. stream_pause (stream_removeListener ?M ch)"
  let ?sb = "log GetChannels (conn_removeListener ChannelOpenEv ?L ?sa)"
  let ?P = "\<lambda>ch :: channel. data_owned p ch = [] \<or> data_owned p ch = [(True, ?M)]"
  have fd: "fire_data r s (True, ?M) = promise_resolve p (?sb\<lparr>channels := map ?g (channels ?sb)\<rparr>)"
    by (simp add: fire_data_def call_def messageReceived_def Let_def)
  have pa: "promises ?sa = promises s" "conn_owned p ?sa = conn_owned p s"
    by (cases r; simp add: unregister_def ops conn_owned_def)+
  have w_ch: "\<forall>ch \<in> set (channels s). ?P ch" and w_tr: "\<forall>t \<in> set (mediaTracks s). data_owned p t = []"
    using w by (simp_all add: waiting_message_def list_all_iff)
  have cha: "\<forall>ch \<in> set (channels ?sa). ?P ch"
  proof (cases r)
    case (Channel i)
    have "\<forall>ch \<in> set ((channels s)[i := (channels s ! i)\<lparr>data_listeners := remove1 (True, ?M) (data_listeners (channels s ! i))\<rparr>]). ?P ch"
    proof (rule update_all [OF w_ch])
      assume "i < length (channels s)"
      then have "?P (channels s ! i)" using w_ch by simp
      then show "?P ((channels s ! i)\<lparr>data_listeners := remove1 (True, ?M) (data_listeners (channels s ! i))\<rparr>)"
        by (auto simp: data_owned_remove1)
    qed
    then show ?thesis using Channel by (simp add: unregister_def ops)
  next
    case (Track i)
    then show ?thesis using w_ch by (simp add: unregister_def ops)
  qed
  have tra: "\<forall>t \<in> set (mediaTracks ?sa). data_owned p t = []"
  proof (cases r)
    case (Channel i)
    then show ?thesis using w_tr by (simp add: unregister_def ops)
  next
    case (Track i)
    have "\<forall>t \<in> set ((mediaTracks s)[i := (mediaTracks s ! i)\<lparr>data_listeners := remove1 (True, ?M) (data_listeners (mediaTracks s ! i))\<rparr>]). data_owned p t = []"
    proof (rule update_all [OF w_tr])
      assume "i < length (mediaTracks s)"
      then have "data_owned p (mediaTracks s ! i) = []" using w_tr by simp
      then show "data_owned p ((mediaTracks s ! i)\<lparr>data_listeners := remove1 (True, ?M) (data_listeners (mediaTracks s ! i))\<rparr>) = []"
        by (simp add: data_owned_remove1)
    qed
    then show ?thesis using Track by (simp add: unregister_def ops)
  qed
  have g: "data_owned p (?g ch) = []" if "?P ch" for ch :: channel
    using that by (auto simp: data_owned_pause data_owned_removeListener_own)
  have 1: "conn_owned p (fire_data r s (True, ?M)) = []"
  proof -
    have "conn_owned p (fire_data r s (True, ?M)) = conn_owned p (conn_removeListener ChannelOpenEv ?L ?sa)"
      unfolding fd by (simp add: conn_owned_def ops)
    also have "\<dots> = remove_last (\<lambda>(e, one_shot, c'). e = ChannelOpenEv \<and> c' = ?L) (conn_owned p ?sa)"
      by (rule conn_owned_removeListener_own) simp
    also have "\<dots> = []"
      using w by (simp add: pa waiting_message_def)
    finally show ?thesis .
  qed
  have 2: "data_quiet p (fire_data r s (True, ?M))"
  proof -
    have "channels (fire_data r s (True, ?M)) = map ?g (channels ?sa)"
      "mediaTracks (fire_data r s (True, ?M)) = mediaTracks ?sa"
      unfolding fd by (simp_all add: ops)
    then show ?thesis
      using cha tra g by (simp add: data_quiet_iff)
  qed
  have 3: "promises (fire_data r s (True, ?M)) = resolve_in p (promises s)"
    unfolding fd using pa(1) by (simp add: ops)
  have 4: "pstate (resolve_in p (promises s) ! p) = Fulfilled"
    using w by (intro resolve_in_fulfils) (simp_all add: waiting_message_def)
  show ?thesis
    using 1 2 4 w by (simp add: finished_def 3 waiting_message_def)
qed

lemma waiting_data:
  assumes w: "waiting_message p l s"
  shows "waiting_message p l (emit_data r s) \<or> finished p (emit_data r s)"
proof -
  let ?M = "MessageReceived p l"
  let ?xs = "stream_listeners r s"
  have "filter (\<lambda>x. closure_pid (snd x) = p) ?xs = []
      \<or> filter (\<lambda>x. closure_pid (snd x) = p) ?xs = [(True, ?M)]"
    using w
    by (auto simp: stream_owned waiting_message_def list_all_length split: stream_ref.splits)
  then show ?thesis
  proof
    assume "filter (\<lambda>x. closure_pid (snd x) = p) ?xs = []"
    then have "\<forall>x \<in> set ?xs. closure_pid (snd x) \<noteq> p"
      by (rule stream_not_owned)
    then have "unobserved p s (emit_data r s)"
      unfolding emit_data_def by (intro unobserved_foldl_fire_data ballI not_owned_harmless) blast
    then show ?thesis
      using waiting_message_unobserved [OF w] by blast
  next
    assume "filter (\<lambda>x. closure_pid (snd x) = p) ?xs = [(True, ?M)]"
    then obtain ys zs where xs: "?xs = ys @ (True, ?M) # zs"
      and ys: "\<forall>y \<in> set ys. closure_pid (snd y) \<noteq> p" and zs: "\<forall>z \<in> set zs. closure_pid (snd z) \<noteq> p"
      using filter_single_split [of "\<lambda>x. closure_pid (snd x) = p" ?xs "(True, ?M)"] by blast
    let ?s2 = "foldl (fire_data r) s ys"
    have u2: "unobserved p s ?s2"
      by (intro unobserved_foldl_fire_data ballI not_owned_harmless) (use ys in blast)
    have f3: "finished p (fire_data r ?s2 (True, ?M))"
      by (rule message_fires [OF waiting_message_unobserved [OF w u2]])
    have u4: "unobserved p (fire_data r ?s2 (True, ?M)) (foldl (fire_data r) (fire_data r ?s2 (True, ?M)) zs)"
      by (intro unobserved_foldl_fire_data ballI not_owned_harmless) (use zs in blast)
    have "finished p (foldl (fire_data r) s ?xs)"
      unfolding xs using finished_unobserved [OF f3 u4] by simp
    then show ?thesis by (simp add: emit_data_def)
  qed
qed

lemma waiting_message_add_track: "waiting_message p l s \<Longrightarrow> waiting_message p l (add_track r s)"
  by (simp add: waiting_message_def add_track_def untouchable_def conn_owned_def
      new_track_def data_owned_def)

lemma finished_step: "finished p s \<Longrightarrow> finished p (step e s)"
  using silent_step [of p "invocations p (trace s)" s e] by (simp add: silent_def)

lemma message_step:
  assumes "waiting_message p l s \<or> finished p s"
  shows "waiting_message p l (step e s) \<or> finished p (step e s)"
  using assms
proof
  assume "finished p s"
  then show ?thesis by (simp add: finished_step)
next
  assume w: "waiting_message p l s"
  show ?thesis
  proof (cases e)
    case (ChannelOpen lb r)
    let ?s1 = "emit ChannelOpenEv (Some (Channel (length (channels s)))) (add_channel lb r s)"
    have 1: "waiting_message p l ?s1"
      by (rule waiting_channel_open [OF w])
    have 2: "waiting_message p l (emit RemoteChannelOpenEv arg ?s1)" for arg
      by (rule waiting_emit_other [OF 1]) simp
    show ?thesis
      using ChannelOpen 1 2 by (cases r) (simp_all add: Let_def)
  next
    case (TrackOpen r)
    let ?s1 = "emit TrackOpenEv (Some (Track (length (mediaTracks s)))) (add_track r s)"
    have 1: "waiting_message p l ?s1"
      by (rule waiting_emit_other [OF waiting_message_add_track [OF w]]) simp
    have 2: "waiting_message p l (emit RemoteTrackOpenEv arg ?s1)" for arg
      by (rule waiting_emit_other [OF 1]) simp
    show ?thesis
      using TrackOpen 1 2 by (cases r) (simp_all add: Let_def)
  next
    case (ChannelData i)
    then show ?thesis using waiting_data [OF w] by simp
  next
    case (TrackData i)
    then show ?thesis using waiting_data [OF w] by simp
  next
    case (WriteDone i err)
    then show ?thesis
      using waiting_message_unobserved [OF w unobserved_write_done] by simp
  next
    case ConnectionClosed
    then show ?thesis
      using waiting_emit_other [OF w, of ConnectionClosedEv] by simp
  qed
qed

lemma message_run:
  "waiting_message p l s \<or> finished p s \<Longrightarrow>
   waiting_message p l (run es s) \<or> finished p (run es s)"
proof (induction es arbitrary: s)
  case Nil
  then show ?case by (simp add: run_def)
next
  case (Cons e es)
  from message_step [OF Cons.prems] Cons.IH [of "step e s"]
  show ?case by (simp add: run_def)
qed

lemma finished_is_silent:
  assumes "finished p s"
  shows "conn_owned p (run es s) = [] \<and> data_quiet p (run es s)
    \<and> invocations p (trace (run es s)) = invocations p (trace s)
    \<and> promise_state_of p (run es s) = Fulfilled"
  using silent_run [of p "invocations p (trace s)" s es] assms
  by (simp add: silent_def finished_def promise_state_of_def)

lemma message_single_fire:
  assumes "fresh (length (promises st)) st"
    and "promise_state_of (fst (WaitForMessageStep_handle l st))
           (run es (snd (WaitForMessageStep_handle l st))) = Fulfilled"
  shows "finished (fst (WaitForMessageStep_handle l st)) (run es (snd (WaitForMessageStep_handle l st)))"
proof -
  note h = wait_for_message_waits [OF assms(1), of l]
  have "waiting_message (length (promises st)) l (run es (snd (WaitForMessageStep_handle l st)))
      \<or> finished (length (promises st)) (run es (snd (WaitForMessageStep_handle l st)))"
    using message_run h(2) by blast
  then show ?thesis
    using assms(2) by (auto simp: h(1) waiting_message_def promise_state_of_def)
qed

section \<open>A wait for media fires once\<close>

lemma waiting_media_unobserved:
  assumes "waiting_media p s" "unobserved p s s'"
  shows "waiting_media p s'"
proof -
  have u: "untouchable p s" using assms(1) by (simp add: waiting_media_def)
  note f = unobserved_facts [OF assms(2)]
  show ?thesis
    using assms(1) f(7) [OF u] unfolding waiting_media_def f(1,2,3,4) by simp
qed

lemma listen_data_step:
  assumes w: "waiting_media p s"
    and e: "i < length (mediaTracks s) \<longrightarrow> data_owned p (mediaTracks s ! i) = []"
  shows "waiting_media p (call (ListenForData p) (Some (Track i)) s)"
    and "length (mediaTracks (call (ListenForData p) (Some (Track i)) s)) = length (mediaTracks s)"
    and "j \<noteq> i \<Longrightarrow> mediaTracks (call (ListenForData p) (Some (Track i)) s) ! j = mediaTracks s ! j"
proof -
  let ?s' = "call (ListenForData p) (Some (Track i)) s"
  let ?M = "MediaReceived p"
  have u: "untouchable p ?s'"
    using untouchable_skeleton [OF skeleton_call, of p "ListenForData p" "Some (Track i)" s] w
    by (simp add: waiting_media_def)
  have same: "listeners ?s' = listeners s" "promises ?s' = promises s" "channels ?s' = channels s"
    by (simp_all add: call_def listenForData_def ops split: option.splits)
  have tr: "mediaTracks ?s' = mediaTracks s
      \<or> (i < length (mediaTracks s) \<and> mediaTracks ?s' = (mediaTracks s)[i := stream_once ?M (mediaTracks s ! i)])"
    by (auto simp: call_def listenForData_def track_arg_def ops split: option.splits)
  show "length (mediaTracks ?s') = length (mediaTracks s)"
    using tr by auto
  show "mediaTracks ?s' ! j = mediaTracks s ! j" if "j \<noteq> i"
    using tr that by auto
  have "list_all (\<lambda>x. x = [] \<or> x = [(True, ?M)]) (map (data_owned p) (mediaTracks ?s'))"
  proof -
    from tr show ?thesis
    proof
      assume "mediaTracks ?s' = mediaTracks s"
      then show ?thesis using w by (simp add: waiting_media_def)
    next
      assume a: "i < length (mediaTracks s) \<and> mediaTracks ?s' = (mediaTracks s)[i := stream_once ?M (mediaTracks s ! i)]"
      then have "data_owned p (stream_once ?M (mediaTracks s ! i)) = [(True, ?M)]"
        using e by (simp add: data_owned_once_own)
      then show ?thesis
        using a w list_all_map_update
          [of "\<lambda>x. x = [] \<or> x = [(True, ?M)]" "data_owned p" "mediaTracks s" "stream_once ?M (mediaTracks s ! i)" i]
        by (simp add: waiting_media_def)
    qed
  qed
  then show "waiting_media p ?s'"
    using w u by (simp add: waiting_media_def conn_owned_def same)
qed

lemma listen_data_forEach:
  assumes "waiting_media p s" "distinct xs"
    and "\<forall>i \<in> set xs. i < length (mediaTracks s) \<longrightarrow> data_owned p (mediaTracks s ! i) = []"
  shows "waiting_media p (foldl (\<lambda>s i. call (ListenForData p) (Some (Track i)) s) s xs)"
  using assms
proof (induction xs arbitrary: s)
  case Nil
  then show ?case by simp
next
  case (Cons x xs)
  let ?s' = "call (ListenForData p) (Some (Track x)) s"
  have e: "x < length (mediaTracks s) \<longrightarrow> data_owned p (mediaTracks s ! x) = []"
    using Cons.prems(3) by simp
  note st = listen_data_step [OF Cons.prems(1) e]
  have "\<forall>i \<in> set xs. i < length (mediaTracks ?s') \<longrightarrow> data_owned p (mediaTracks ?s' ! i) = []"
  proof
    fix i assume i: "i \<in> set xs"
    then have "i \<noteq> x" using Cons.prems(2) by auto
    then show "i < length (mediaTracks ?s') \<longrightarrow> data_owned p (mediaTracks ?s' ! i) = []"
      using st(2) st(3) [of i] Cons.prems(3) i by simp
  qed
  then show ?case
    using Cons.IH [OF st(1)] Cons.prems(2) by simp
qed

lemma waiting_media_from_prepared:
  "prepared p s [(TrackOpenEv, False, ListenForData p)] \<Longrightarrow> waiting_media p s"
  by (auto simp: prepared_def waiting_media_def data_quiet_iff list_all_iff)

lemma wait_for_media_waits:
  assumes "fresh (length (promises st)) st"
  shows "fst (WaitForMediaStep_handle st) = length (promises st)"
    and "waiting_media (length (promises st)) (snd (WaitForMediaStep_handle st))"
proof -
  let ?p = "length (promises st)"
  let ?L = "ListenForData ?p"
  let ?s3 = "log GetMediaTracks (conn_on TrackOpenEv ?L (alloc_promise st))"
  show "fst (WaitForMediaStep_handle st) = ?p"
    by (simp add: WaitForMediaStep_handle_def Let_def)
  have "prepared ?p (conn_on TrackOpenEv ?L (alloc_promise st)) ([] @ [(TrackOpenEv, False, ?L)])"
    by (rule prepared_on [OF prepared_alloc [OF assms]]) simp
  then have 3: "prepared ?p ?s3 [(TrackOpenEv, False, ?L)]"
    using prepared_frame(4) by simp
  have q: "\<forall>i \<in> set [0..<length (mediaTracks ?s3)]. i < length (mediaTracks ?s3) \<longrightarrow> data_owned ?p (mediaTracks ?s3 ! i) = []"
    using 3 by (simp add: prepared_def data_quiet_iff)
  have "waiting_media ?p (foldl (\<lambda>s i. call ?L (Some (Track i)) s) ?s3 [0..<length (mediaTracks ?s3)])"
    by (rule listen_data_forEach [OF waiting_media_from_prepared [OF 3] _ q]) simp
  then show "waiting_media ?p (snd (WaitForMediaStep_handle st))"
    by (simp add: WaitForMediaStep_handle_def Let_def)
qed

lemma waiting_track_open:
  assumes "waiting_media p s"
  shows "waiting_media p
    (emit TrackOpenEv (Some (Track (length (mediaTracks s)))) (add_track r s))"
proof -
  let ?i = "length (mediaTracks s)"
  let ?s1 = "add_track r s"
  let ?L = "ListenForData p"
  let ?xs = "map snd (filter (\<lambda>(e, r). e = TrackOpenEv) (listeners ?s1))"
  have w1: "waiting_media p ?s1"
    using assms
    by (simp add: waiting_media_def add_track_def untouchable_def conn_owned_def
        new_track_def data_owned_def)
  have i1: "?i < length (mediaTracks ?s1)" "data_owned p (mediaTracks ?s1 ! ?i) = []"
    by (simp_all add: add_track_def new_track_def data_owned_def)
  have "filter (\<lambda>x. closure_pid (snd x) = p) ?xs = [(False, ?L)]"
    using w1 by (simp add: snapshot_owned waiting_media_def)
  then obtain ys zs where xs: "?xs = ys @ (False, ?L) # zs"
    and ys: "\<forall>y \<in> set ys. closure_pid (snd y) \<noteq> p" and zs: "\<forall>z \<in> set zs. closure_pid (snd z) \<noteq> p"
    using filter_single_split [of "\<lambda>x. closure_pid (snd x) = p" ?xs "(False, ?L)"] by blast
  let ?f = "fire TrackOpenEv (Some (Track ?i))"
  let ?s2 = "foldl ?f ?s1 ys"
  have u2: "unobserved p ?s1 ?s2"
    by (intro unobserved_foldl_fire ballI not_owned_harmless) (use ys in blast)
  have w2: "waiting_media p ?s2"
    using waiting_media_unobserved [OF w1 u2] .
  have "map (data_owned p) (mediaTracks ?s2) = map (data_owned p) (mediaTracks ?s1)"
    using unobserved_facts(3) [OF u2] .
  then have i2: "?i < length (mediaTracks ?s2) \<longrightarrow> data_owned p (mediaTracks ?s2 ! ?i) = []"
    using i1 by (metis length_map nth_map)
  have f: "?f ?s2 (False, ?L) = call ?L (Some (Track ?i)) ?s2"
    by (simp add: fire_def)
  have w3: "waiting_media p (?f ?s2 (False, ?L))"
    unfolding f by (rule listen_data_step(1) [OF w2 i2])
  have u4: "unobserved p (?f ?s2 (False, ?L)) (foldl ?f (?f ?s2 (False, ?L)) zs)"
    by (intro unobserved_foldl_fire ballI not_owned_harmless) (use zs in blast)
  have "waiting_media p (foldl ?f ?s1 ?xs)"
    unfolding xs using waiting_media_unobserved [OF w3 u4] by simp
  then show ?thesis
    by (simp add: emit_def)
qed

lemma waiting_media_emit_other:
  assumes "waiting_media p s" "ev \<noteq> TrackOpenEv"
  shows "waiting_media p (emit ev arg s)"
proof -
  have "\<forall>x \<in> set (conn_owned p s). fst x = ev \<longrightarrow> harmless p (snd x)"
    using assms by (simp add: waiting_media_def)
  then show ?thesis
    using waiting_media_unobserved [OF assms(1) emit_unobserved] by blast
qed

lemma media_fires:
  assumes w: "waiting_media p s"
  shows "finished p (fire_data r s (True, MediaReceived p))"
proof -
  let ?M = "MediaReceived p"
  let ?L = "ListenForData p"
  let ?sa = "log (Invoked ?M) (unregister r (True, ?M) s)"
  let ?g = "\<lambda>t. stream_pause (stream_removeListener ?M t)"
  let ?sb = "log GetMediaTracks (conn_removeListener TrackOpenEv ?L ?sa)"
  let ?P = "\<lambda>t :: stream. data_owned p t = [] \<or> data_owned p t = [(True, ?M)]"
  have fd: "fire_data r s (True, ?M) = promise_resolve p (?sb\<lparr>mediaTracks := map ?g (mediaTracks ?sb)\<rparr>)"
    by (simp add: fire_data_def call_def mediaReceived_def Let_def)
  have pa: "promises ?sa = promises s" "conn_owned p ?sa = conn_owned p s"
    by (cases r; simp add: unregister_def ops conn_owned_def)+
  have w_tr: "\<forall>t \<in> set (mediaTracks s). ?P t" and w_ch: "\<forall>ch \<in> set (channels s). data_owned p ch = []"
    using w by (simp_all add: waiting_media_def list_all_iff)
  have tra: "\<forall>t \<in> set (mediaTracks ?sa). ?P t"
  proof (cases r)
    case (Track i)
    have "\<forall>t \<in> set ((mediaTracks s)[i := (mediaTracks s ! i)\<lparr>data_listeners := remove1 (True, ?M) (data_listeners (mediaTracks s ! i))\<rparr>]). ?P t"
    proof (rule update_all [OF w_tr])
      assume "i < length (mediaTracks s)"
      then have "?P (mediaTracks s ! i)" using w_tr by simp
      then show "?P ((mediaTracks s ! i)\<lparr>data_listeners := remove1 (True, ?M) (data_listeners (mediaTracks s ! i))\<rparr>)"
        by (auto simp: data_owned_remove1)
    qed
    then show ?thesis using Track by (simp add: unregister_def ops)
  next
    case (Channel i)
    then show ?thesis using w_tr by (simp add: unregister_def ops)
  qed
  have cha: "\<forall>ch \<in> set (channels ?sa). data_owned p ch = []"
  proof (cases r)
    case (Track i)
    then show ?thesis using w_ch by (simp add: unregister_def ops)
  next
    case (Channel i)
    have "\<forall>ch \<in> set ((channels s)[i := (channels s ! i)\<lparr>data_listeners := remove1 (True, ?M) (data_listeners (channels s ! i))\<rparr>]). data_owned p ch = []"
    proof (rule update_all [OF w_ch])
      assume "i < length (channels s)"
      then have "data_owned p (channels s ! i) = []" using w_ch by simp
      then show "data_owned p ((channels s ! i)\<lparr>data_listeners := remove1 (True, ?M) (data_listeners (channels s ! i))\<rparr>) = []"
        by (simp add: data_owned_remove1)
    qed
    then show ?thesis using Channel by (simp add: unregister_def ops)
  qed
  have g: "data_owned p (?g t) = []" if "?P t" for t :: stream
    using that by (auto simp: data_owned_pause data_owned_removeListener_own)
  have 1: "conn_owned p (fire_data r s (True, ?M)) = []"
  proof -
    have "conn_owned p (fire_data r s (True, ?M)) = conn_owned p (conn_removeListener TrackOpenEv ?L ?sa)"
      unfolding fd by (simp add: conn_owned_def ops)
    also have "\<dots> = remove_last (\<lambda>(e, one_shot, c'). e = TrackOpenEv \<and> c' = ?L) (conn_owned p ?sa)"
      by (rule conn_owned_removeListener_own) simp
    also have "\<dots> = []"
      using w by (simp add: pa waiting_media_def)
    finally show ?thesis .
  qed
  have 2: "data_quiet p (fire_data r s (True, ?M))"
  proof -
    have "mediaTracks (fire_data r s (True, ?M)) = map ?g (mediaTracks ?sa)"
      "channels (fire_data r s (True, ?M)) = channels ?sa"
      unfolding fd by (simp_all add: ops)
    then show ?thesis
      using cha tra g by (simp add: data_quiet_iff)
  qed
  have 3: "promises (fire_data r s (True, ?M)) = resolve_in p (promises s)"
    unfolding fd using pa(1) by (simp add: ops)
  have 4: "pstate (resolve_in p (promises s) ! p) = Fulfilled"
    using w by (intro resolve_in_fulfils) (simp_all add: waiting_media_def)
  show ?thesis
    using 1 2 4 w by (simp add: finished_def 3 waiting_media_def)
qed

lemma waiting_media_data:
  assumes w: "waiting_media p s"
  shows "waiting_media p (emit_data r s) \<or> finished p (emit_data r s)"
proof -
  let ?M = "MediaReceived p"
  let ?xs = "stream_listeners r s"
  have "filter (\<lambda>x. closure_pid (snd x) = p) ?xs = []
      \<or> filter (\<lambda>x. closure_pid (snd x) = p) ?xs = [(True, ?M)]"
    using w
    by (auto simp: stream_owned waiting_media_def list_all_length split: stream_ref.splits)
  then show ?thesis
  proof
    assume "filter (\<lambda>x. closure_pid (snd x) = p) ?xs = []"
    then have "\<forall>x \<in> set ?xs. closure_pid (snd x) \<noteq> p"
      by (rule stream_not_owned)
    then have "unobserved p s (emit_data r s)"
      unfolding emit_data_def by (intro unobserved_foldl_fire_data ballI not_owned_harmless) blast
    then show ?thesis
      using waiting_media_unobserved [OF w] by blast
  next
    assume "filter (\<lambda>x. closure_pid (snd x) = p) ?xs = [(True, ?M)]"
    then obtain ys zs where xs: "?xs = ys @ (True, ?M) # zs"
      and ys: "\<forall>y \<in> set ys. closure_pid (snd y) \<noteq> p" and zs: "\<forall>z \<in> set zs. closure_pid (snd z) \<noteq> p"
      using filter_single_split [of "\<lambda>x. closure_pid (snd x) = p" ?xs "(True, ?M)"] by blast
    let ?s2 = "foldl (fire_data r) s ys"
    have u2: "unobserved p s ?s2"
      by (intro unobserved_foldl_fire_data ballI not_owned_harmless) (use ys in blast)
    have f3: "finished p (fire_data r ?s2 (True, ?M))"
      by (rule media_fires [OF waiting_media_unobserved [OF w u2]])
    have u4: "unobserved p (fire_data r ?s2 (True, ?M)) (foldl (fire_data r) (fire_data r ?s2 (True, ?M)) zs)"
      by (intro unobserved_foldl_fire_data ballI not_owned_harmless) (use zs in blast)
    have "finished p (foldl (fire_data r) s ?xs)"
      unfolding xs using finished_unobserved [OF f3 u4] by simp
    then show ?thesis by (simp add: emit_data_def)
  qed
qed

lemma waiting_media_add_channel: "waiting_media p s \<Longrightarrow> waiting_media p (add_channel l r s)"
  by (simp add: waiting_media_def add_channel_def untouchable_def conn_owned_def
      new_channel_def data_owned_def)

lemma media_step:
  assumes "waiting_media p s \<or> finished p s"
  shows "waiting_media p (step e s) \<or> finished p (step e s)"
  using assms
proof
  assume "finished p s"
  then show ?thesis by (simp add: finished_step)
next
  assume w: "waiting_media p s"
  show ?thesis
  proof (cases e)
    case (TrackOpen r)
    let ?s1 = "emit TrackOpenEv (Some (Track (length (mediaTracks s)))) (add_track r s)"
    have 1: "waiting_media p ?s1"
      by (rule waiting_track_open [OF w])
    have 2: "waiting_media p (emit RemoteTrackOpenEv arg ?s1)" for arg
      by (rule waiting_media_emit_other [OF 1]) simp
    show ?thesis
      using TrackOpen 1 2 by (cases r) (simp_all add: Let_def)
  next
    case (ChannelOpen lb r)
    let ?s1 = "emit ChannelOpenEv (Some (Channel (length (channels s)))) (add_channel lb r s)"
    have 1: "waiting_media p ?s1"
      by (rule waiting_media_emit_other [OF waiting_media_add_channel [OF w]]) simp
    have 2: "waiting_media p (emit RemoteChannelOpenEv arg ?s1)" for arg
      by (rule waiting_media_emit_other [OF 1]) simp
    show ?thesis
      using ChannelOpen 1 2 by (cases r) (simp_all add: Let_def)
  next
    case (ChannelData i)
    then show ?thesis using waiting_media_data [OF w] by simp
  next
    case (TrackData i)
    then show ?thesis using waiting_media_data [OF w] by simp
  next
    case (WriteDone i err)
    then show ?thesis
      using waiting_media_unobserved [OF w unobserved_write_done] by simp
  next
    case ConnectionClosed
    then show ?thesis
      using waiting_media_emit_other [OF w, of ConnectionClosedEv] by simp
  qed
qed

lemma media_run:
  "waiting_media p s \<or> finished p s \<Longrightarrow> waiting_media p (run es s) \<or> finished p (run es s)"
proof (induction es arbitrary: s)
  case Nil
  then show ?case by (simp add: run_def)
next
  case (Cons e es)
  from media_step [OF Cons.prems] Cons.IH [of "step e s"]
  show ?case by (simp add: run_def)
qed

lemma media_single_fire:
  assumes "fresh (length (promises st)) st"
    and "promise_state_of (fst (WaitForMediaStep_handle st))
           (run es (snd (WaitForMediaStep_handle st))) = Fulfilled"
  shows "finished (fst (WaitForMediaStep_handle st)) (run es (snd (WaitForMediaStep_handle st)))"
proof -
  note h = wait_for_media_waits [OF assms(1)]
  have "waiting_media (length (promises st)) (run es (snd (WaitForMediaStep_handle st)))
      \<or> finished (length (promises st)) (run es (snd (WaitForMediaStep_handle st)))"
    using media_run h(2) by blast
  then show ?thesis
    using assms(2) by (auto simp: h(1) waiting_media_def promise_state_of_def)
qed

lemma finished_fired: "finished p s \<Longrightarrow> fired_for_good p s es"
  using finished_is_silent [of p s es] by (simp add: fired_for_good_def finished_def)

text \<open>
  C5. Let \<^verbatim>\<open>handle\<close> of a message wait or of a media wait run in a state that does not yet
  refer to the promise it allocates, and let any events follow. If its promise is
  fulfilled after them, then none of its closures is registered any more, neither its
  listener for opening channels (tracks) on the connection nor its data listener on any
  channel (track); and whatever events follow, data on any stream included, none of its
  closures is called again or registered again, and the promise stays fulfilled.
\<close>

theorem waits_fire_once:
  assumes "fresh (length (promises st)) st"
  shows "(promise_state_of (fst (WaitForMessageStep_handle l st))
            (run es (snd (WaitForMessageStep_handle l st))) = Fulfilled
          \<longrightarrow> fired_for_good (fst (WaitForMessageStep_handle l st))
                (run es (snd (WaitForMessageStep_handle l st))) es')
    \<and> (promise_state_of (fst (WaitForMediaStep_handle st))
            (run es (snd (WaitForMediaStep_handle st))) = Fulfilled
          \<longrightarrow> fired_for_good (fst (WaitForMediaStep_handle st))
                (run es (snd (WaitForMediaStep_handle st))) es')"
  using message_single_fire [OF assms] media_single_fire [OF assms] finished_fired
  by blast

lemmas eval_defs = run_def emit_def emit_data_def fire_def fire_data_def call_def unregister_def
  stream_listeners_def add_channel_def add_track_def new_channel_def new_track_def
  new_connection_def matchesChannel_def Let_def remove_last_def resolve_in_def promise_state_of_def
  write_done_def write_callback_def

theorem waits_fire_once_witness:
  "fresh (length (promises chat_and_video)) chat_and_video
   \<and> promise_state_of 0 (run [ChannelData 0] (snd (WaitForMessageStep_handle None chat_and_video)))
       = Fulfilled
   \<and> fired_for_good 0 (run [ChannelData 0] (snd (WaitForMessageStep_handle None chat_and_video)))
        [ChannelData 0, ChannelOpen ''log'' True, ChannelData 1]
   \<and> promise_state_of 0 (run [TrackData 0] (snd (WaitForMediaStep_handle chat_and_video)))
       = Fulfilled
   \<and> fired_for_good 0 (run [TrackData 0] (snd (WaitForMediaStep_handle chat_and_video)))
        [TrackData 0, TrackOpen True, TrackData 1]"
proof -
  have f: "fresh (length (promises chat_and_video)) chat_and_video"
    by (simp add: fresh_def chat_and_video_def new_connection_def new_channel_def new_track_def
        conn_owned_def data_quiet_iff data_owned_def untouchable_def)
  have m: "fst (WaitForMessageStep_handle None chat_and_video) = 0"
    "fst (WaitForMediaStep_handle chat_and_video) = 0"
    by (simp_all add: WaitForMessageStep_handle_def WaitForMediaStep_handle_def Let_def
        chat_and_video_def new_connection_def)
  have a: "promise_state_of 0 (run [ChannelData 0] (snd (WaitForMessageStep_handle None chat_and_video)))
      = Fulfilled"
    by (simp add: WaitForMessageStep_handle_def chat_and_video_def eval_defs ops closure_defs
        stream_ops)
  have b: "promise_state_of 0 (run [TrackData 0] (snd (WaitForMediaStep_handle chat_and_video)))
      = Fulfilled"
    by (simp add: WaitForMediaStep_handle_def chat_and_video_def eval_defs ops closure_defs
        stream_ops)
  from waits_fire_once [OF f, of None "[ChannelData 0]" "[ChannelData 0, ChannelOpen ''log'' True, ChannelData 1]"]
    waits_fire_once [OF f, of None "[TrackData 0]" "[TrackData 0, TrackOpen True, TrackData 1]"]
  show ?thesis
    using f a b by (simp add: m)
qed

section \<open>Steps that run until the connection closes, with events during the set-up\<close>

lemma awaiting_nothing:
  "PeerProxyStep_handle_awaiting [] [] g this st w = PeerProxyStep_handle g this st w"
  "DynamicProxyStep_handle_awaiting [] proxyResult dyn st = DynamicProxyStep_handle proxyResult dyn st"
  by (simp_all add: PeerProxyStep_handle_awaiting_def PeerProxyStep_handle_def
      DynamicProxyStep_handle_awaiting_def DynamicProxyStep_handle_def run_def Let_def
      split: sum.splits prod.splits option.splits)

lemma prepared_step: "prepared p s [] \<Longrightarrow> prepared p (step e s) []"
proof (rule step_invariant [where I = "\<lambda>s. prepared p s []"])
  show "prepared p (add_channel l r s') []" if "prepared p s' []" for l r s'
    using that
    by (simp add: prepared_def add_channel_def untouchable_def conn_owned_def data_quiet_iff
        new_channel_def data_owned_def)
  show "prepared p (add_track r s') []" if "prepared p s' []" for r s'
    using that
    by (simp add: prepared_def add_track_def untouchable_def conn_owned_def data_quiet_iff
        new_track_def data_owned_def)
  show e: "prepared p (emit ev arg s') []" if "prepared p s' []" for ev arg s'
  proof -
    have "\<forall>x \<in> set (conn_owned p s'). fst x = ev \<longrightarrow> harmless p (snd x)"
      using that by (simp add: prepared_def)
    then show ?thesis
      using prepared_unobserved [OF that emit_unobserved] by blast
  qed
  show "prepared p (emit ConnectionClosedEv None s) []" if "prepared p s []"
    using that by (rule e)
  show "prepared p (emit_data r s') []" if "prepared p s' []" for r s'
    using that prepared_unobserved [OF that emit_data_unobserved] by (simp add: prepared_def)
  show "prepared p (write_done i e s') []" if "prepared p s' []" for i e s'
    using prepared_unobserved [OF that unobserved_write_done] .
qed

lemma prepared_run: "prepared p s [] \<Longrightarrow> prepared p (run es s) []"
proof (induction es arbitrary: s)
  case Nil
  then show ?case by (simp add: run_def)
next
  case (Cons e es)
  then have "prepared p (run es (step e s)) []" by (simp add: prepared_step)
  then show ?case by (simp add: run_def)
qed

lemma rtc_connections_run: "rtc_connections (run es s) = rtc_connections s"
proof (induction es arbitrary: s)
  case Nil
  then show ?case by (simp add: run_def)
next
  case (Cons e es)
  have "rtc_connections (step e s) = rtc_connections s"
  proof (rule step_invariant [where I = "\<lambda>s'. rtc_connections s' = rtc_connections s"])
    show "rtc_connections (emit ev arg s') = rtc_connections s"
      if "rtc_connections s' = rtc_connections s" for ev arg s'
      using skeleton_emit [of ev arg s'] that by (simp add: skeleton_def)
    show "rtc_connections (emit_data r s') = rtc_connections s"
      if "rtc_connections s' = rtc_connections s" for r s'
      using skeleton_emit_data [of r s'] that by (simp add: skeleton_def)
    show "rtc_connections (emit ConnectionClosedEv None s) = rtc_connections s"
      using skeleton_emit [of ConnectionClosedEv None s] by (simp add: skeleton_def)
    show "rtc_connections (write_done i e s') = rtc_connections s"
      if "rtc_connections s' = rtc_connections s" for i e s'
      using that
      by (simp add: write_done_def write_callback_def ops split: list.splits option.splits)
  qed (simp_all add: add_channel_def add_track_def)
  then show ?case
    using Cons [of "step e s"] by (simp add: run_def)
qed

lemma peer_proxy_awaiting_parks:
  assumes "fresh (length (promises st)) st"
    and "g (length (rtc_connections st)) = Inr x"
    and "fst (getAnswer this x w) = Inr a"
  shows "fst (PeerProxyStep_handle_awaiting during1 during2 g this st w) = length (promises st)"
    and "parked (length (promises st))
           (fst (snd (snd (PeerProxyStep_handle_awaiting during1 during2 g this st w))))"
proof -
  let ?p = "length (promises st)"
  let ?n = "length (rtc_connections st)"
  let ?s2 = "(alloc_promise st)\<lparr>rtc_connections := rtc_connections st @ [new_RTCConnection]\<rparr>"
  let ?s4 = "run during2 (run during1 ?s2)"
  let ?s6 = "proxyTrafficTo ?n (rtc_setRemoteDescription ?n a ?s4)"
  obtain w1 where ga: "getAnswer this x w = (Inr a, w1)"
    using assms(3) by (cases "getAnswer this x w") auto
  have h: "PeerProxyStep_handle_awaiting during1 during2 g this st w =
      (?p, this\<lparr>externalConnections := externalConnections this @ [?n]\<rparr>,
       conn_on ConnectionClosedEv (ResolveFn ?p) ?s6, w1)"
    using assms(2) ga by (simp add: PeerProxyStep_handle_awaiting_def Let_def alloc_promise_def)
  show "fst (PeerProxyStep_handle_awaiting during1 during2 g this st w) = ?p"
    by (simp add: h)
  have "prepared ?p ?s2 []"
    by (intro prepared_frame prepared_alloc assms(1))
  then have "prepared ?p ?s4 []"
    by (intro prepared_run)
  then have "prepared ?p ?s6 []"
    by (intro prepared_frame)
  then have "parked ?p (conn_on ConnectionClosedEv (ResolveFn ?p) ?s6)"
    by (rule parked_from_prepared) simp
  then show "parked ?p (fst (snd (snd (PeerProxyStep_handle_awaiting during1 during2 g this st w))))"
    by (simp add: h)
qed

lemma dynamic_proxy_awaiting_parks:
  assumes "fresh (length (promises st)) st"
  shows "fst (DynamicProxyStep_handle_awaiting during None this st) = length (promises st)"
    and "parked (length (promises st)) (snd (snd (DynamicProxyStep_handle_awaiting during None this st)))"
proof -
  let ?p = "length (promises st)"
  let ?s3 = "run during (log CallProxyTrafficToExternalConnection (alloc_promise st))"
  show "fst (DynamicProxyStep_handle_awaiting during None this st) = ?p"
    by (simp add: DynamicProxyStep_handle_awaiting_def Let_def)
  have "prepared ?p (log CallProxyTrafficToExternalConnection (alloc_promise st)) []"
    by (intro prepared_frame prepared_alloc assms(1))
  then have "prepared ?p ?s3 []"
    by (rule prepared_run)
  then have "parked ?p (conn_on ConnectionClosedEv (ResolveFn ?p) ?s3)"
    by (rule parked_from_prepared) simp
  then show "parked ?p (snd (snd (DynamicProxyStep_handle_awaiting during None this st)))"
    by (simp add: DynamicProxyStep_handle_awaiting_def Let_def)
qed

lemma parked_completes:
  assumes "parked p s" "ConnectionClosed \<notin> set before"
  shows "completes_exactly_on_close p s before es"
proof (cases "ConnectionClosed \<in> set es")
  case False
  then have "promise_state_of p (run es s) = Pending"
    using perpetual_parked [OF assms(1), of es "[]"] by (simp add: perpetual_def)
  then show ?thesis
    using False assms(2) by (simp add: completes_exactly_on_close_def)
next
  case True
  then obtain es1 es2 where es: "es = es1 @ ConnectionClosed # es2" "ConnectionClosed \<notin> set es1"
    by (meson split_list_first)
  have "promise_state_of p (run es s) = Fulfilled"
    using perpetual_parked [OF assms(1) es(2), of es2] by (simp add: perpetual_def es(1))
  then show ?thesis
    using True by (simp add: completes_exactly_on_close_def)
qed

text \<open>
  C6, as the code has it. Let \<^verbatim>\<open>handle\<close> of an echo step, a peer proxy step or a dynamic
  proxy step run in a state that does not yet refer to the promise it allocates. After any
  events \<open>es\<close> that follow the call, the promise of the echo step is fulfilled exactly when
  the connection has closed among them: it is not fulfilled while the connection stays
  open, and it is fulfilled once \<^verbatim>\<open>'connection-closed'\<close> has been dispatched, whatever
  follows. The same holds for a peer proxy step whose external offer and answer arrive, and
  for a dynamic proxy step whose proxying call returns, when the connection does not close
  among the events dispatched while the step awaits them (\<open>during1\<close>, \<open>during2\<close>).
\<close>

theorem perpetual_steps_complete_exactly_on_close:
  assumes "fresh (length (promises st)) st"
    and "ConnectionClosed \<notin> set during1" and "ConnectionClosed \<notin> set during2"
  shows "completes_exactly_on_close (fst (EchoStep_handle st)) (snd (EchoStep_handle st)) [] es
    \<and> (g (length (rtc_connections st)) = Inr x \<and> fst (getAnswer this x w) = Inr a \<longrightarrow>
         completes_exactly_on_close
           (fst (PeerProxyStep_handle_awaiting during1 during2 g this st w))
           (fst (snd (snd (PeerProxyStep_handle_awaiting during1 during2 g this st w))))
           (during1 @ during2) es)
    \<and> completes_exactly_on_close
         (fst (DynamicProxyStep_handle_awaiting during1 None dyn st))
         (snd (snd (DynamicProxyStep_handle_awaiting during1 None dyn st))) during1 es"
proof (intro conjI impI)
  show "completes_exactly_on_close (fst (EchoStep_handle st)) (snd (EchoStep_handle st)) [] es"
    using parked_completes [OF echo_parks(2) [OF assms(1)], of "[]" es] echo_parks(1) [OF assms(1)]
    by simp
next
  assume s: "g (length (rtc_connections st)) = Inr x \<and> fst (getAnswer this x w) = Inr a"
  note pk = peer_proxy_awaiting_parks
    [where g = g and this = this and w = w and ?during1.0 = during1 and ?during2.0 = during2,
      OF assms(1) conjunct1 [OF s] conjunct2 [OF s]]
  have "ConnectionClosed \<notin> set (during1 @ during2)"
    using assms(2,3) by simp
  from parked_completes [OF pk(2) this, of es] pk(1)
  show "completes_exactly_on_close
      (fst (PeerProxyStep_handle_awaiting during1 during2 g this st w))
      (fst (snd (snd (PeerProxyStep_handle_awaiting during1 during2 g this st w))))
      (during1 @ during2) es"
    by simp
next
  note pk = dynamic_proxy_awaiting_parks [OF assms(1), of during1 dyn]
  from parked_completes [OF pk(2) assms(2), of es] pk(1)
  show "completes_exactly_on_close
      (fst (DynamicProxyStep_handle_awaiting during1 None dyn st))
      (snd (snd (DynamicProxyStep_handle_awaiting during1 None dyn st))) during1 es"
    by simp
qed

text \<open>
  C6, as the specification states it (for every peer proxy and dynamic proxy step), fails.
  A peer proxy step whose answer source rejects, and a dynamic proxy step whose proxying
  call rejects, are not fulfilled by the closure of the connection that follows: their
  promises are rejected. And a peer proxy step or a dynamic proxy step during whose await
  the connection closes has no listener yet when \<^verbatim>\<open>'connection-closed'\<close> is dispatched:
  its promise is not fulfilled although the connection has closed.
\<close>

theorem perpetual_steps_counterexample:
  "\<not> completes_exactly_on_close 0
       (fst (snd (snd (PeerProxyStep_handle_awaiting [] [] offers
          (new_PeerProxyStep (TargetFunction no_answer)) new_connection ()))))
       [] [ConnectionClosed]
   \<and> \<not> completes_exactly_on_close 0
       (fst (snd (snd (PeerProxyStep_handle_awaiting [] [ConnectionClosed] offers
          (new_PeerProxyStep (TargetFunction answering)) new_connection ()))))
       [ConnectionClosed] []
   \<and> \<not> completes_exactly_on_close 0
       (snd (snd (DynamicProxyStep_handle_awaiting [] (Some (Error ''no peer''))
          new_DynamicProxyStep new_connection)))
       [] [ConnectionClosed]
   \<and> \<not> completes_exactly_on_close 0
       (snd (snd (DynamicProxyStep_handle_awaiting [ConnectionClosed] None
          new_DynamicProxyStep new_connection)))
       [ConnectionClosed] []"
  by (simp add: completes_exactly_on_close_def PeerProxyStep_handle_awaiting_def
      DynamicProxyStep_handle_awaiting_def new_PeerProxyStep_def no_answer_def answering_def
      offers_def new_DynamicProxyStep_def eval_defs ops reject_in_def
      rtc_setRemoteDescription_def proxyTrafficTo_def)

text \<open>
  The three steps on a connection with a data channel and a track, with traffic during the
  awaits and after them: pending while the connection is open, fulfilled once it has
  closed.
\<close>

theorem perpetual_steps_complete_witness:
  "fresh (length (promises chat_and_video)) chat_and_video
   \<and> ConnectionClosed \<notin> set [ChannelData 0] \<and> ConnectionClosed \<notin> set [TrackOpen False]
   \<and> offers (length (rtc_connections chat_and_video)) = Inr an_offer
   \<and> fst (getAnswer (new_PeerProxyStep (TargetFunction answering)) an_offer ())
       = Inr (an_offer\<lparr>sd_type := ''answer''\<rparr>)
   \<and> promise_state_of 0 (run [ChannelData 0, TrackData 0] (snd (EchoStep_handle chat_and_video)))
       \<noteq> Fulfilled
   \<and> promise_state_of 0
        (run [ChannelData 0, ConnectionClosed, TrackData 0] (snd (EchoStep_handle chat_and_video)))
       = Fulfilled
   \<and> promise_state_of 0
        (run [ChannelData 0, TrackData 0]
          (fst (snd (snd (PeerProxyStep_handle_awaiting [ChannelData 0] [TrackOpen False] offers
             (new_PeerProxyStep (TargetFunction answering)) chat_and_video ())))))
       \<noteq> Fulfilled
   \<and> promise_state_of 0
        (run [ChannelData 0, ConnectionClosed, TrackData 0]
          (fst (snd (snd (PeerProxyStep_handle_awaiting [ChannelData 0] [TrackOpen False] offers
             (new_PeerProxyStep (TargetFunction answering)) chat_and_video ())))))
       = Fulfilled
   \<and> promise_state_of 0
        (run [ChannelData 0, TrackData 0]
          (snd (snd (DynamicProxyStep_handle_awaiting [ChannelData 0] None new_DynamicProxyStep
             chat_and_video))))
       \<noteq> Fulfilled
   \<and> promise_state_of 0
        (run [ChannelData 0, ConnectionClosed, TrackData 0]
          (snd (snd (DynamicProxyStep_handle_awaiting [ChannelData 0] None new_DynamicProxyStep
             chat_and_video))))
       = Fulfilled"
proof -
  have f: "fresh (length (promises chat_and_video)) chat_and_video"
    by (simp add: fresh_def chat_and_video_def new_connection_def new_channel_def new_track_def
        conn_owned_def data_quiet_iff data_owned_def untouchable_def)
  have n: "ConnectionClosed \<notin> set [ChannelData 0]" "ConnectionClosed \<notin> set [TrackOpen False]"
    by simp_all
  have l: "length (promises chat_and_video) = 0" "length (rtc_connections chat_and_video) = 0"
    by (simp_all add: chat_and_video_def new_connection_def)
  have g: "offers (length (rtc_connections chat_and_video)) = Inr an_offer"
    by (simp add: offers_def)
  have a: "fst (getAnswer (new_PeerProxyStep (TargetFunction answering)) an_offer ())
      = Inr (an_offer\<lparr>sd_type := ''answer''\<rparr>)"
    by (simp add: new_PeerProxyStep_def answering_def)
  have e: "fst (EchoStep_handle chat_and_video) = 0"
    by (simp add: EchoStep_handle_def Let_def l)
  have p: "fst (PeerProxyStep_handle_awaiting [ChannelData 0] [TrackOpen False] offers
      (new_PeerProxyStep (TargetFunction answering)) chat_and_video ()) = 0"
    by (simp add: PeerProxyStep_handle_awaiting_def Let_def l split: sum.splits prod.splits)
  have d: "fst (DynamicProxyStep_handle_awaiting [ChannelData 0] None new_DynamicProxyStep
      chat_and_video) = 0"
    by (simp add: DynamicProxyStep_handle_awaiting_def Let_def l)
  note t = perpetual_steps_complete_exactly_on_close [OF f n,
      where g = offers and x = an_offer and this = "new_PeerProxyStep (TargetFunction answering)"
        and w = "()" and a = "an_offer\<lparr>sd_type := ''answer''\<rparr>" and dyn = new_DynamicProxyStep]
  from t [of "[ChannelData 0, TrackData 0]"] t [of "[ChannelData 0, ConnectionClosed, TrackData 0]"]
  show ?thesis
    using f g a by (simp add: completes_exactly_on_close_def e p d)
qed

section \<open>A send step settles with its writes\<close>

lemma resolve_in_apart:
  "q \<noteq> p \<Longrightarrow> (q < length ps \<longrightarrow> parent (ps ! q) \<noteq> Some p) \<Longrightarrow> resolve_in q ps ! p = ps ! p"
  by (auto simp: resolve_in_def Let_def split: option.splits)

lemma reject_in_apart:
  "q \<noteq> p \<Longrightarrow> (q < length ps \<longrightarrow> parent (ps ! q) \<noteq> Some p) \<Longrightarrow> reject_in q f ps ! p = ps ! p"
  by (auto simp: reject_in_def Let_def split: option.splits)

lemma promise_invoke_apart: "apart x s c \<Longrightarrow> promises (invoke c arg s) ! x = promises s ! x"
  by (cases c)
     (auto simp: apart_def closure_defs ops Let_def resolve_in_apart
        split: option.splits stream_ref.splits)

lemma same_parents:
  assumes "map parent ps' = map parent ps"
  shows "length ps' = length ps" and "p < length ps \<Longrightarrow> parent (ps' ! p) = parent (ps ! p)"
proof -
  show l: "length ps' = length ps"
    using assms by (rule map_eq_imp_length_eq)
  show "parent (ps' ! p) = parent (ps ! p)" if "p < length ps"
    using that l nth_map [of p ps' parent] nth_map [of p ps parent] assms by simp
qed

lemma apart_parents:
  "map parent (promises s') = map parent (promises s) \<Longrightarrow> apart x s' c = apart x s c"
  using same_parents [of "promises s'" "promises s"] by (auto simp: apart_def)

lemma apart_skeleton: "skeleton s' = skeleton s \<Longrightarrow> apart x s' c = apart x s c"
  by (rule apart_parents) (simp add: skeleton_def)

lemma promise_call_apart: "apart x s c \<Longrightarrow> promises (call c arg s) ! x = promises s ! x"
  using promise_invoke_apart [of x "log (Invoked c) s" c arg] apart_parents [of "log (Invoked c) s" s x c]
  by (simp add: call_def log_def)

lemma promise_fire_apart: "apart x s (snd r) \<Longrightarrow> promises (fire ev arg s r) ! x = promises s ! x"
proof -
  assume a: "apart x s (snd r)"
  obtain b c where r: "r = (b, c)" by (cases r)
  let ?s1 = "if b then s\<lparr>listeners := remove1 (ev, True, c) (listeners s)\<rparr> else s"
  have "apart x ?s1 c"
    using a r apart_parents [of ?s1 s x c] by simp
  then have "promises (call c arg ?s1) ! x = promises ?s1 ! x"
    by (rule promise_call_apart)
  then show ?thesis
    by (simp add: fire_def r)
qed

lemma promise_fire_data_apart:
  "apart x s (snd y) \<Longrightarrow> promises (fire_data r s y) ! x = promises s ! x"
proof -
  assume a: "apart x s (snd y)"
  obtain b c where y: "y = (b, c)" by (cases y)
  let ?s1 = "if b then unregister r (True, c) s else s"
  have p: "promises ?s1 = promises s"
    by (simp add: promises_unregister)
  then have "apart x ?s1 c"
    using a y apart_parents [of ?s1 s x c] by simp
  then have "promises (call c (Some r) ?s1) ! x = promises ?s1 ! x"
    by (rule promise_call_apart)
  then show ?thesis
    using p by (simp add: fire_data_def y)
qed

lemma promise_foldl_fire_apart:
  "\<forall>r \<in> set xs. apart x s (snd r) \<Longrightarrow> promises (foldl (fire ev arg) s xs) ! x = promises s ! x"
proof (induction xs arbitrary: s)
  case Nil
  then show ?case by simp
next
  case (Cons r xs)
  have "\<forall>r' \<in> set xs. apart x (fire ev arg s r) (snd r')"
    using Cons.prems apart_skeleton [OF skeleton_fire, of x ev arg s r] by simp
  then have "promises (foldl (fire ev arg) (fire ev arg s r) xs) ! x = promises (fire ev arg s r) ! x"
    by (rule Cons.IH)
  then show ?case
    using Cons.prems promise_fire_apart [of x s r ev arg] by simp
qed

lemma promise_foldl_fire_data_apart:
  "\<forall>y \<in> set xs. apart x s (snd y) \<Longrightarrow> promises (foldl (fire_data r) s xs) ! x = promises s ! x"
proof (induction xs arbitrary: s)
  case Nil
  then show ?case by simp
next
  case (Cons y xs)
  have "\<forall>y' \<in> set xs. apart x (fire_data r s y) (snd y')"
    using Cons.prems apart_skeleton [OF skeleton_fire_data, of x r s y] by simp
  then have "promises (foldl (fire_data r) (fire_data r s y) xs) ! x = promises (fire_data r s y) ! x"
    by (rule Cons.IH)
  then show ?case
    using Cons.prems promise_fire_data_apart [of x s y r] by simp
qed

lemma shielded_snapshot:
  assumes "shielded x s"
  shows "\<forall>r \<in> set (map snd (filter (\<lambda>(e, r). e = ev) (listeners s))). apart x s (snd r)"
proof
  fix r assume r: "r \<in> set (map snd (filter (\<lambda>(e, r). e = ev) (listeners s)))"
  have n: "closure_pid (snd r) \<noteq> p" if "quiet p s" for p
  proof -
    have "\<forall>y \<in> set (conn_owned p s). fst y \<noteq> ev"
      using that by (simp add: quiet_def)
    from snapshot_not_owned [OF this] r show ?thesis by blast
  qed
  show "apart x s (snd r)"
    using assms n unfolding shielded_def apart_def by blast
qed

lemma shielded_stream:
  assumes "shielded x s"
  shows "\<forall>y \<in> set (stream_listeners r s). apart x s (snd y)"
proof
  fix y assume y: "y \<in> set (stream_listeners r s)"
  have n: "closure_pid (snd y) \<noteq> p" if "quiet p s" for p
    using data_quiet_not_owned [of p s r] that y by (simp add: quiet_def)
  show "apart x s (snd y)"
    using assms n unfolding shielded_def apart_def by blast
qed

lemma quiet_unobserved: "unobserved p s s' \<Longrightarrow> quiet p s \<Longrightarrow> quiet p s'"
  using unobserved_facts(1,5) [of p s s'] by (simp add: quiet_def)

lemma quiet_emit: "quiet p s \<Longrightarrow> quiet p (emit ev arg s)"
proof -
  assume q: "quiet p s"
  then have "\<forall>x \<in> set (conn_owned p s). fst x = ev \<longrightarrow> harmless p (snd x)"
    by (simp add: quiet_def)
  from quiet_unobserved [OF emit_unobserved [OF this] q] show ?thesis .
qed

lemma quiet_emit_data: "quiet p s \<Longrightarrow> quiet p (emit_data r s)"
  using quiet_unobserved [OF emit_data_unobserved, of p s r] by (simp add: quiet_def)

lemma quiet_write_done: "quiet p s \<Longrightarrow> quiet p (write_done i e s)"
  using quiet_unobserved [OF unobserved_write_done] .

lemma quiet_add_channel: "quiet p s \<Longrightarrow> quiet p (add_channel l r s)"
  by (simp add: quiet_def add_channel_def conn_owned_def data_quiet_iff new_channel_def data_owned_def)

lemma quiet_add_track: "quiet p s \<Longrightarrow> quiet p (add_track r s)"
  by (simp add: quiet_def add_track_def conn_owned_def data_quiet_iff new_track_def data_owned_def)

lemma shielded_kept:
  assumes "shielded x s" and "map parent (promises s') = map parent (promises s)"
    and "\<And>p. quiet p s \<Longrightarrow> quiet p s'"
  shows "shielded x s'"
  using assms(1,3) same_parents [OF assms(2)] unfolding shielded_def by metis

lemma shielded_emit:
  assumes "shielded x s"
  shows "shielded x (emit ev arg s)" and "promises (emit ev arg s) ! x = promises s ! x"
proof -
  have "map parent (promises (emit ev arg s)) = map parent (promises s)"
    using skeleton_emit [of ev arg s] by (simp add: skeleton_def)
  from shielded_kept [OF assms this quiet_emit] show "shielded x (emit ev arg s)" .
  show "promises (emit ev arg s) ! x = promises s ! x"
    unfolding emit_def by (rule promise_foldl_fire_apart) (rule shielded_snapshot [OF assms])
qed

lemma shielded_emit_data:
  assumes "shielded x s"
  shows "shielded x (emit_data r s)" and "promises (emit_data r s) ! x = promises s ! x"
proof -
  have "map parent (promises (emit_data r s)) = map parent (promises s)"
    using skeleton_emit_data [of r s] by (simp add: skeleton_def)
  from shielded_kept [OF assms this quiet_emit_data] show "shielded x (emit_data r s)" .
  show "promises (emit_data r s) ! x = promises s ! x"
    unfolding emit_data_def by (rule promise_foldl_fire_data_apart) (rule shielded_stream [OF assms])
qed

lemma shielded_write_done: "shielded x s \<Longrightarrow> shielded x (write_done i e s)"
proof -
  assume a: "shielded x s"
  have "map parent (promises (write_done i e s)) = map parent (promises s)"
    by (simp add: write_done_def write_callback_def ops split: list.splits option.splits)
  from shielded_kept [OF a this quiet_write_done] show ?thesis .
qed

lemma shielded_add_channel: "shielded x s \<Longrightarrow> shielded x (add_channel l r s)"
proof -
  assume a: "shielded x s"
  have "map parent (promises (add_channel l r s)) = map parent (promises s)"
    by (simp add: add_channel_def)
  from shielded_kept [OF a this quiet_add_channel] show ?thesis .
qed

lemma shielded_add_track: "shielded x s \<Longrightarrow> shielded x (add_track r s)"
proof -
  assume a: "shielded x s"
  have "map parent (promises (add_track r s)) = map parent (promises s)"
    by (simp add: add_track_def)
  from shielded_kept [OF a this quiet_add_track] show ?thesis .
qed

lemma write_each_props:
  assumes "distinct is" "\<forall>i \<in> set is. i < length (channels s)"
    and "\<forall>i \<in> set is. write_callbacks (channels s ! i) = []"
  shows "fst (write_each m is s) = [length (promises s)..<length (promises s) + length is]
    \<and> promises (snd (write_each m is s)) = promises s @ replicate (length is) fresh_promise
    \<and> length (channels (snd (write_each m is s))) = length (channels s)
    \<and> (\<forall>k < length is.
          write_callbacks (channels (snd (write_each m is s)) ! (is ! k)) = [length (promises s) + k]
          \<and> writes (channels (snd (write_each m is s)) ! (is ! k)) = writes (channels s ! (is ! k)) @ [m])
    \<and> (\<forall>j. j \<notin> set is \<longrightarrow> channels (snd (write_each m is s)) ! j = channels s ! j)
    \<and> map label (channels (snd (write_each m is s))) = map label (channels s)"
  using assms
proof (induction "is" arbitrary: s)
  case Nil
  show ?case by simp
next
  case (Cons i "is")
  let ?p = "length (promises s)"
  let ?s1 = "channel_write i m ?p (alloc_promise s)"
  let ?s' = "snd (write_each m is ?s1)"
  have "map label ((channels s)[i := (\<lambda>ch. ch\<lparr>writes := writes ch @ [m],
      write_callbacks := write_callbacks ch @ [?p]\<rparr>) (channels s ! i)]) = map label (channels s)"
    by (rule map_update_same) simp
  then have s1: "promises ?s1 = promises s @ [fresh_promise]" "length (channels ?s1) = length (channels s)"
    "map label (channels ?s1) = map label (channels s)"
    by (simp_all add: channel_write_def ops fresh_promise_def)
  have s1': "channels ?s1 ! j = channels s ! j" if "j \<noteq> i" for j
    using that by (simp add: channel_write_def ops)
  have i: "i \<notin> set is" "i < length (channels s)" "write_callbacks (channels s ! i) = []"
    using Cons.prems by auto
  have d1: "distinct is" using Cons.prems(1) by simp
  have d2: "\<forall>j \<in> set is. j < length (channels ?s1)"
    using Cons.prems(2) by (simp add: s1(2))
  have d3: "\<forall>j \<in> set is. write_callbacks (channels ?s1 ! j) = []"
  proof
    fix j assume j: "j \<in> set is"
    then have "j \<noteq> i" using i(1) by auto
    then show "write_callbacks (channels ?s1 ! j) = []"
      using Cons.prems(3) j by (simp add: s1')
  qed
  note IH0 = Cons.IH [OF d1 d2 d3]
  have len: "length (promises ?s1) = Suc ?p"
    by (simp add: s1(1))
  have IH1: "fst (write_each m is ?s1) = [Suc ?p..<Suc ?p + length is]"
    using IH0 [THEN conjunct1] by (simp only: len)
  have IH2: "promises ?s' = (promises s @ [fresh_promise]) @ replicate (length is) fresh_promise"
    using IH0 [THEN conjunct2, THEN conjunct1] by (simp only: s1(1))
  have IH3: "length (channels ?s') = length (channels s)"
    using IH0 [THEN conjunct2, THEN conjunct2, THEN conjunct1] by (simp only: s1(2))
  have IH4: "\<forall>k < length is.
      write_callbacks (channels ?s' ! (is ! k)) = [Suc ?p + k]
      \<and> writes (channels ?s' ! (is ! k)) = writes (channels ?s1 ! (is ! k)) @ [m]"
    using IH0 [THEN conjunct2, THEN conjunct2, THEN conjunct2, THEN conjunct1]
    by (simp only: len)
  have IH5: "\<forall>j. j \<notin> set is \<longrightarrow> channels ?s' ! j = channels ?s1 ! j"
    using IH0 [THEN conjunct2, THEN conjunct2, THEN conjunct2, THEN conjunct2, THEN conjunct1] .
  have IH6: "map label (channels ?s') = map label (channels s)"
    using IH0 [THEN conjunct2, THEN conjunct2, THEN conjunct2, THEN conjunct2, THEN conjunct2]
    by (simp only: s1(3))
  have we: "write_each m (i # is) s = (?p # fst (write_each m is ?s1), ?s')"
    by (simp add: Let_def)
  have here: "write_callbacks (channels ?s1 ! i) = [?p]"
    "writes (channels ?s1 ! i) = writes (channels s ! i) @ [m]"
    using i by (simp_all add: channel_write_def ops)
  have rest: "channels ?s' ! i = channels ?s1 ! i"
    using IH5 i(1) by simp
  have "[?p..<Suc ?p + length is] = ?p # [Suc ?p..<Suc ?p + length is]"
    by (rule upt_conv_Cons) simp
  moreover have "?p + length (i # is) = Suc ?p + length is"
    by simp
  ultimately have 1: "fst (write_each m (i # is) s) = [?p..<?p + length (i # is)]"
    by (simp only: we fst_conv IH1)
  have 2: "promises (snd (write_each m (i # is) s)) = promises s @ replicate (length (i # is)) fresh_promise"
    by (simp add: we IH2 del: write_each.simps)
  have 3: "length (channels (snd (write_each m (i # is) s))) = length (channels s)"
    by (simp add: we IH3 del: write_each.simps)
  have 4: "write_callbacks (channels (snd (write_each m (i # is) s)) ! ((i # is) ! k)) = [?p + k]
      \<and> writes (channels (snd (write_each m (i # is) s)) ! ((i # is) ! k)) = writes (channels s ! ((i # is) ! k)) @ [m]"
    if k: "k < length (i # is)" for k
  proof (cases k)
    case 0
    then show ?thesis using here rest by (simp add: we del: write_each.simps)
  next
    case (Suc k')
    then have k': "k' < length is" using k by simp
    then have ne: "is ! k' \<noteq> i" using i(1) by (metis nth_mem)
    have "write_callbacks (channels ?s' ! (is ! k')) = [Suc ?p + k']
        \<and> writes (channels ?s' ! (is ! k')) = writes (channels ?s1 ! (is ! k')) @ [m]"
      using IH4 k' by blast
    then show ?thesis
      using Suc by (simp add: we s1' [OF ne] del: write_each.simps)
  qed
  have 5: "channels (snd (write_each m (i # is) s)) ! j = channels s ! j" if "j \<notin> set (i # is)" for j
  proof -
    have "j \<notin> set is" "j \<noteq> i" using that by auto
    then show ?thesis using IH5 by (simp add: we s1' del: write_each.simps)
  qed
  have 6: "map label (channels (snd (write_each m (i # is) s))) = map label (channels s)"
    by (simp add: we IH6 del: write_each.simps)
  show ?case
    using 1 2 3 4 5 6 by blast
qed

lemma ack_other:
  assumes "sending q A s" "i \<notin> fst ` A"
  shows "write_done i e s = s"
  using assms by (simp add: sending_def write_done_def)

lemma sending_elem:
  assumes "sending q A s" "(i, p) \<in> A"
  shows "i < length (channels s)" "write_callbacks (channels s ! i) = [p]"
    "p < length (promises s)" "p \<noteq> q" "pstate (promises s ! p) = Pending"
    "parent (promises s ! p) = Some q" "q < length (promises s)"
    "pstate (promises s ! q) = Pending" "remaining (promises s ! q) = card A" "0 < card A"
proof -
  have ne: "A \<noteq> {}" using assms(2) by auto
  have fin: "finite A" using assms(1) by (simp add: sending_def)
  show "i < length (channels s)" "write_callbacks (channels s ! i) = [p]"
    "p < length (promises s)" "p \<noteq> q" "pstate (promises s ! p) = Pending"
    "parent (promises s ! p) = Some q"
    using assms unfolding sending_def by blast+
  show "q < length (promises s)" "remaining (promises s ! q) = card A"
    using assms(1) by (simp_all add: sending_def)
  show "pstate (promises s ! q) = Pending"
    using assms(1) ne by (simp add: sending_def)
  show "0 < card A"
    using ne fin by (simp add: card_gt_0_iff)
qed

lemma ack_fail:
  assumes "sending q A s" "(i, p) \<in> A"
  shows "q < length (promises (write_done i (Some e) s))"
    and "promise_state_of q (write_done i (Some e) s) = Rejected (WriteFailed e)"
proof -
  note f = sending_elem [OF assms]
  have wd: "promises (write_done i (Some e) s) = reject_in p (WriteFailed e) (promises s)"
    using f(1,2) by (simp add: write_done_def write_callback_def ops)
  show "q < length (promises (write_done i (Some e) s))"
    using f(7) by (simp add: wd)
  show "promise_state_of q (write_done i (Some e) s) = Rejected (WriteFailed e)"
    using f(3-8) by (simp add: promise_state_of_def wd reject_in_def Let_def)
qed

lemma ack_ok:
  assumes "sending q A s" "(i, p) \<in> A"
  shows "sending q (A - {(i, p)}) (write_done i None s)"
proof -
  note f = sending_elem [OF assms]
  let ?s' = "write_done i None s"
  let ?A' = "A - {(i, p)}"
  have fin: "finite A" and injf: "inj_on fst A" and injs: "inj_on snd A"
    using assms(1) by (simp_all add: sending_def)
  have len: "length (promises ?s') = length (promises s)" "length (channels ?s') = length (channels s)"
    using f(1,2) by (simp_all add: write_done_def write_callback_def ops)
  have chi: "write_callbacks (channels ?s' ! i) = []"
    using f(1,2) by (simp add: write_done_def write_callback_def ops)
  have cho: "channels ?s' ! j = channels s ! j" if "j \<noteq> i" for j
    using f(1,2) that by (simp add: write_done_def write_callback_def ops)
  have pr: "promises ?s' = resolve_in p (promises s)"
    using f(1,2) by (simp add: write_done_def write_callback_def ops)
  have card': "card ?A' = card A - 1"
    using fin assms(2) by simp
  have empty': "(?A' = {}) = (card A - 1 = 0)"
    using fin card' by (metis card_0_eq finite_Diff)
  have q': "promises ?s' ! q = (promises s ! q)\<lparr>remaining := card A - 1,
      pstate := (if card A - 1 = 0 then Fulfilled else Pending)\<rparr>"
    using f(3-9) by (simp add: pr resolve_in_def Let_def)
  have other: "promises ?s' ! k = promises s ! k" if "k \<noteq> p" "k \<noteq> q" for k
    using f(3-8) that by (simp add: pr resolve_in_def Let_def)
  have elems: "j < length (channels ?s') \<and> write_callbacks (channels ?s' ! j) = [p']
      \<and> p' < length (promises ?s') \<and> p' \<noteq> q
      \<and> pstate (promises ?s' ! p') = Pending \<and> parent (promises ?s' ! p') = Some q"
    if m: "(j, p') \<in> ?A'" for j p'
  proof -
    have in_A: "(j, p') \<in> A" and ne: "(j, p') \<noteq> (i, p)" using m by auto
    have "j \<noteq> i"
      using inj_onD [OF injf, of "(j, p')" "(i, p)"] in_A assms(2) ne by auto
    moreover have "p' \<noteq> p"
      using inj_onD [OF injs, of "(j, p')" "(i, p)"] in_A assms(2) ne by auto
    moreover note g = sending_elem [OF assms(1) in_A]
    ultimately show ?thesis
      using g(1-6) by (simp add: len cho other)
  qed
  have idle': "write_callbacks (channels ?s' ! j) = []"
    if "j < length (channels ?s')" "j \<notin> fst ` ?A'" for j
  proof (cases "j = i")
    case True
    then show ?thesis using chi by simp
  next
    case False
    then have "j \<notin> fst ` A" using that(2) by force
    then show ?thesis
      using assms(1) that(1) False by (simp add: sending_def len cho)
  qed
  show ?thesis
    unfolding sending_def
  proof (intro conjI)
    show "finite ?A'" using fin by simp
    show "q < length (promises ?s')" using f(7) by (simp add: len)
    show "parent (promises ?s' ! q) = None"
      using assms(1) by (simp add: q' sending_def)
    show "remaining (promises ?s' ! q) = card ?A'" by (simp add: q' card')
    show "pstate (promises ?s' ! q) = (if ?A' = {} then Fulfilled else Pending)"
      by (simp only: empty' q') simp
    show "\<forall>(j, p') \<in> ?A'. j < length (channels ?s') \<and> write_callbacks (channels ?s' ! j) = [p']
        \<and> p' < length (promises ?s') \<and> p' \<noteq> q
        \<and> pstate (promises ?s' ! p') = Pending \<and> parent (promises ?s' ! p') = Some q"
      using elems by blast
    show "inj_on fst ?A'" using injf by (rule inj_on_diff)
    show "inj_on snd ?A'" using injs by (rule inj_on_diff)
    show "\<forall>j < length (channels ?s'). j \<notin> fst ` ?A' \<longrightarrow> write_callbacks (channels ?s' ! j) = []"
      using idle' by blast
    have "\<forall>x \<in> insert q (snd ` A). shielded x s"
      using assms(1) by (simp add: sending_def)
    then show "\<forall>x \<in> insert q (snd ` ?A'). shielded x ?s'"
      using shielded_write_done by blast
  qed
qed

lemma same_map:
  assumes "map f xs' = map f xs"
  shows "length xs' = length xs" and "i < length xs \<Longrightarrow> f (xs' ! i) = f (xs ! i)"
proof -
  show l: "length xs' = length xs"
    using assms by (rule map_eq_imp_length_eq)
  show "f (xs' ! i) = f (xs ! i)" if "i < length xs"
    using that l nth_map [of i xs' f] nth_map [of i xs f] assms by simp
qed

lemma sending_frame:
  assumes "sending q A s"
    and "length (promises s') = length (promises s)"
    and "\<And>x. x \<in> insert q (snd ` A) \<Longrightarrow> promises s' ! x = promises s ! x \<and> shielded x s'"
    and "length (channels s) \<le> length (channels s')"
    and "\<And>i. i < length (channels s) \<Longrightarrow>
           write_callbacks (channels s' ! i) = write_callbacks (channels s ! i)"
    and "\<And>i. length (channels s) \<le> i \<Longrightarrow> i < length (channels s') \<Longrightarrow>
           write_callbacks (channels s' ! i) = []"
  shows "sending q A s'"
proof -
  have q: "promises s' ! q = promises s ! q"
    using assms(3) by simp
  have el: "promises s' ! p = promises s ! p" if "(i, p) \<in> A" for i p
    using assms(3) [of p] that by force
  have elems: "i < length (channels s') \<and> write_callbacks (channels s' ! i) = [p]
      \<and> p < length (promises s') \<and> p \<noteq> q
      \<and> pstate (promises s' ! p) = Pending \<and> parent (promises s' ! p) = Some q"
    if m: "(i, p) \<in> A" for i p
  proof -
    note g = sending_elem [OF assms(1) m]
    show ?thesis
      using g(1-6) assms(4) assms(5) [OF g(1)] by (simp add: assms(2) el [OF m])
  qed
  have idle': "write_callbacks (channels s' ! i) = []"
    if "i < length (channels s')" "i \<notin> fst ` A" for i
  proof (cases "i < length (channels s)")
    case True
    then show ?thesis
      using assms(1) that(2) assms(5) [OF True] by (simp add: sending_def)
  next
    case False
    then show ?thesis
      using assms(6) [of i] that(1) by simp
  qed
  show ?thesis
    unfolding sending_def
  proof (intro conjI)
    show "finite A" "inj_on fst A" "inj_on snd A"
      using assms(1) by (simp_all add: sending_def)
    show "q < length (promises s')" "parent (promises s' ! q) = None"
      "remaining (promises s' ! q) = card A"
      "pstate (promises s' ! q) = (if A = {} then Fulfilled else Pending)"
      using assms(1) by (simp_all add: sending_def q assms(2))
    show "\<forall>(i, p) \<in> A. i < length (channels s') \<and> write_callbacks (channels s' ! i) = [p]
        \<and> p < length (promises s') \<and> p \<noteq> q
        \<and> pstate (promises s' ! p) = Pending \<and> parent (promises s' ! p) = Some q"
      using elems by blast
    show "\<forall>i < length (channels s'). i \<notin> fst ` A \<longrightarrow> write_callbacks (channels s' ! i) = []"
      using idle' by blast
    show "\<forall>x \<in> insert q (snd ` A). shielded x s'"
      using assms(3) by blast
  qed
qed

lemma sending_shielded: "sending q A s \<Longrightarrow> x \<in> insert q (snd ` A) \<Longrightarrow> shielded x s"
  unfolding sending_def by blast

lemma sending_emit: "sending q A s \<Longrightarrow> sending q A (emit ev arg s)"
proof (rule sending_frame)
  assume a: "sending q A s"
  show "sending q A s" by (rule a)
  have sk: "skeleton (emit ev arg s) = skeleton s" by (rule skeleton_emit)
  then have p: "map parent (promises (emit ev arg s)) = map parent (promises s)"
    and c: "map write_callbacks (channels (emit ev arg s)) = map write_callbacks (channels s)"
    by (simp_all add: skeleton_def)
  show "length (promises (emit ev arg s)) = length (promises s)"
    using p by (rule same_map(1))
  show "length (channels s) \<le> length (channels (emit ev arg s))"
    using same_map(1) [OF c] by simp
  show "write_callbacks (channels (emit ev arg s) ! i) = write_callbacks (channels s ! i)"
    if "i < length (channels s)" for i
    using c that by (rule same_map(2))
  show "write_callbacks (channels (emit ev arg s) ! i) = []"
    if "length (channels s) \<le> i" "i < length (channels (emit ev arg s))" for i
    using that same_map(1) [OF c] by simp
  show "promises (emit ev arg s) ! x = promises s ! x \<and> shielded x (emit ev arg s)"
    if "x \<in> insert q (snd ` A)" for x
    using shielded_emit [OF sending_shielded [OF a that]] by simp
qed

lemma sending_emit_data: "sending q A s \<Longrightarrow> sending q A (emit_data r s)"
proof (rule sending_frame)
  assume a: "sending q A s"
  show "sending q A s" by (rule a)
  have sk: "skeleton (emit_data r s) = skeleton s" by (rule skeleton_emit_data)
  then have p: "map parent (promises (emit_data r s)) = map parent (promises s)"
    and c: "map write_callbacks (channels (emit_data r s)) = map write_callbacks (channels s)"
    by (simp_all add: skeleton_def)
  show "length (promises (emit_data r s)) = length (promises s)"
    using p by (rule same_map(1))
  show "length (channels s) \<le> length (channels (emit_data r s))"
    using same_map(1) [OF c] by simp
  show "write_callbacks (channels (emit_data r s) ! i) = write_callbacks (channels s ! i)"
    if "i < length (channels s)" for i
    using c that by (rule same_map(2))
  show "write_callbacks (channels (emit_data r s) ! i) = []"
    if "length (channels s) \<le> i" "i < length (channels (emit_data r s))" for i
    using that same_map(1) [OF c] by simp
  show "promises (emit_data r s) ! x = promises s ! x \<and> shielded x (emit_data r s)"
    if "x \<in> insert q (snd ` A)" for x
    using shielded_emit_data [OF sending_shielded [OF a that]] by simp
qed

lemma sending_add_channel: "sending q A s \<Longrightarrow> sending q A (add_channel l r s)"
proof (rule sending_frame)
  assume a: "sending q A s"
  show "sending q A s" by (rule a)
  show "length (promises (add_channel l r s)) = length (promises s)"
    by (simp add: add_channel_def)
  show "length (channels s) \<le> length (channels (add_channel l r s))"
    by (simp add: add_channel_def)
  show "write_callbacks (channels (add_channel l r s) ! i) = write_callbacks (channels s ! i)"
    if "i < length (channels s)" for i
    using that by (simp add: add_channel_def nth_append)
  show "write_callbacks (channels (add_channel l r s) ! i) = []"
    if "length (channels s) \<le> i" "i < length (channels (add_channel l r s))" for i
  proof -
    have "i = length (channels s)" using that by (simp add: add_channel_def)
    then show ?thesis by (simp add: add_channel_def new_channel_def)
  qed
  show "promises (add_channel l r s) ! x = promises s ! x \<and> shielded x (add_channel l r s)"
    if "x \<in> insert q (snd ` A)" for x
    using shielded_add_channel [OF sending_shielded [OF a that]] by (simp add: add_channel_def)
qed

lemma sending_add_track: "sending q A s \<Longrightarrow> sending q A (add_track r s)"
proof (rule sending_frame)
  assume a: "sending q A s"
  show "sending q A s" by (rule a)
  show "promises (add_track r s) ! x = promises s ! x \<and> shielded x (add_track r s)"
    if "x \<in> insert q (snd ` A)" for x
    using shielded_add_track [OF sending_shielded [OF a that]] by (simp add: add_track_def)
qed (simp_all add: add_track_def)

lemma sending_step:
  assumes "sending q A s" and "\<And>i error. e \<noteq> WriteDone i error"
  shows "sending q A (step e s)"
proof (cases e)
  case (ChannelOpen l remote)
  have 1: "sending q A (emit ChannelOpenEv arg (add_channel l remote s))" for arg
    by (intro sending_emit sending_add_channel assms(1))
  have "sending q A (emit RemoteChannelOpenEv arg' (emit ChannelOpenEv arg (add_channel l remote s)))"
    for arg arg'
    by (intro sending_emit sending_add_channel assms(1))
  then show ?thesis
    using ChannelOpen 1 by (cases remote) (simp_all add: Let_def)
next
  case (TrackOpen remote)
  have 1: "sending q A (emit TrackOpenEv arg (add_track remote s))" for arg
    by (intro sending_emit sending_add_track assms(1))
  have "sending q A (emit RemoteTrackOpenEv arg' (emit TrackOpenEv arg (add_track remote s)))"
    for arg arg'
    by (intro sending_emit sending_add_track assms(1))
  then show ?thesis
    using TrackOpen 1 by (cases remote) (simp_all add: Let_def)
next
  case (ChannelData i)
  then show ?thesis using sending_emit_data [OF assms(1)] by simp
next
  case (TrackData i)
  then show ?thesis using sending_emit_data [OF assms(1)] by simp
next
  case (WriteDone i err)
  then show ?thesis using assms(2) by simp
next
  case ConnectionClosed
  then show ?thesis using sending_emit [OF assms(1)] by simp
qed

lemma settled_run:
  assumes "q < length (promises s)" "promise_state_of q s = x" "x \<noteq> Pending"
  shows "promise_state_of q (run es s) = x"
  using settled_kept_run [of s es] assms by (simp add: settled_kept_def promise_state_of_def)

lemma run_Cons: "run (e # es) s = run es (step e s)"
  by (simp add: run_def)

lemma sending_run:
  assumes "sending q A s" and "fst ` A = set R"
  shows "promise_state_of q (run es s) = send_outcome R es"
  using assms
proof (induction es arbitrary: s A R)
  case Nil
  have "(A = {}) = (R = [])" using Nil(2) by auto
  then show ?case
    using Nil(1) by (simp add: run_def promise_state_of_def sending_def)
next
  case (Cons e es)
  have emp: "(A = {}) = (R = [])" using Cons.prems(2) by auto
  have ql: "q < length (promises s)" using Cons.prems(1) by (simp add: sending_def)
  show ?case
  proof (cases "R = []")
    case True
    then have "promise_state_of q s = Fulfilled"
      using Cons.prems(1) emp by (simp add: promise_state_of_def sending_def)
    from settled_run [OF ql this] show ?thesis
      using True by simp
  next
    case False
    show ?thesis
    proof (cases "\<exists>j err. e = WriteDone j err")
      case no: False
      then have "sending q A (step e s)"
        using sending_step [OF Cons.prems(1)] by blast
      from Cons.IH [OF this Cons.prems(2)] show ?thesis
        using no False by (cases e) (simp_all add: run_Cons)
    next
      case True
      then obtain j err where e: "e = WriteDone j err" by blast
      show ?thesis
      proof (cases "j \<in> set R")
        case out: False
        then have "j \<notin> fst ` A" using Cons.prems(2) by simp
        then have "step e s = s"
          using ack_other [OF Cons.prems(1)] e by simp
        then show ?thesis
          using Cons.IH [OF Cons.prems] e out False by (simp add: run_Cons)
      next
        case True
        then obtain p where m: "(j, p) \<in> A"
          using Cons.prems(2) by force
        show ?thesis
        proof (cases err)
          case None
          have s': "sending q (A - {(j, p)}) (step e s)"
            using ack_ok [OF Cons.prems(1) m] e None by simp
          have inj: "inj_on fst A" using Cons.prems(1) by (simp add: sending_def)
          have "fst ` (A - {(j, p)}) = fst ` A - {j}"
          proof -
            have "fst ` (A - {(j, p)}) = fst ` A - fst ` {(j, p)}"
              using inj m by (intro inj_on_image_set_diff [of fst A]) auto
            then show ?thesis by simp
          qed
          then have "fst ` (A - {(j, p)}) = set (removeAll j R)"
            using Cons.prems(2) by simp
          from Cons.IH [OF s' this] show ?thesis
            using e None True False by (simp add: run_Cons)
        next
          case (Some x)
          have "promise_state_of q (step e s) = Rejected (WriteFailed x)"
            and "q < length (promises (step e s))"
            using ack_fail [OF Cons.prems(1) m, of x] e Some by simp_all
          from settled_run [OF this(2) this(1)] show ?thesis
            using e Some True False by (simp add: run_Cons)
        qed
      qed
    qed
  qed
qed

lemma write_each_frame:
  "listeners (snd (write_each m is s)) = listeners s
   \<and> mediaTracks (snd (write_each m is s)) = mediaTracks s
   \<and> map data_listeners (channels (snd (write_each m is s))) = map data_listeners (channels s)"
proof (induction "is" arbitrary: s)
  case Nil
  show ?case by simp
next
  case (Cons i "is")
  let ?p = "length (promises s)"
  let ?s1 = "channel_write i m ?p (alloc_promise s)"
  have "map data_listeners ((channels s)[i := (\<lambda>ch. ch\<lparr>writes := writes ch @ [m],
      write_callbacks := write_callbacks ch @ [?p]\<rparr>) (channels s ! i)]) = map data_listeners (channels s)"
    by (rule map_update_same) simp
  then have "listeners ?s1 = listeners s" "mediaTracks ?s1 = mediaTracks s"
    "map data_listeners (channels ?s1) = map data_listeners (channels s)"
    by (simp_all add: channel_write_def ops)
  then show ?case
    using Cons [of ?s1] by (simp add: Let_def)
qed

lemma quiet_same:
  assumes "listeners s' = listeners s" "mediaTracks s' = mediaTracks s"
    and "map data_listeners (channels s') = map data_listeners (channels s)"
  shows "quiet x s' = quiet x s"
proof -
  have "map (data_owned x) (channels s')
      = map (\<lambda>l. filter (\<lambda>(one_shot, c). closure_pid c = x) l) (map data_listeners (channels s'))"
    by (simp add: data_owned_def)
  also have "\<dots> = map (data_owned x) (channels s)"
    by (simp add: assms(3) data_owned_def)
  finally show ?thesis
    by (simp add: quiet_def conn_owned_def data_quiet_def registrations_def assms(1,2))
qed

lemma set_parent_nth:
  "j < length ps \<Longrightarrow>
   set_parent q elems ps ! j = (if j \<in> set elems then (ps ! j)\<lparr>parent := Some q\<rparr> else ps ! j)"
  by (simp add: set_parent_def)

lemma length_set_parent [simp]: "length (set_parent q elems ps) = length ps"
  by (simp add: set_parent_def)

lemma matching_facts:
  "distinct (matching l st)"
  "i \<in> set (matching l st) = (i < length (channels st) \<and> matchesChannel l (channels st ! i))"
  by (auto simp: matching_def)

lemma send_establishes:
  assumes "idle st" and "unreferenced (Suc (length (matching l st))) st"
  shows "fst (SendStep_handle l m st) = length (promises st) + length (matching l st)"
    and "sending (length (promises st) + length (matching l st))
           ((\<lambda>k. (matching l st ! k, length (promises st) + k)) ` {..<length (matching l st)})
           (snd (SendStep_handle l m st))"
    and "length (channels (snd (SendStep_handle l m st))) = length (channels st)"
    and "i < length (channels st) \<Longrightarrow>
         writes (channels (snd (SendStep_handle l m st)) ! i)
         = (if matchesChannel l (channels st ! i) then writes (channels st ! i) @ [m]
            else writes (channels st ! i))"
proof -
  let ?M = "matching l st"
  let ?N = "length ?M"
  let ?n = "length (promises st)"
  let ?q = "?n + ?N"
  let ?A = "(\<lambda>k. (?M ! k, ?n + k)) ` {..<?N}"
  let ?s1 = "log GetChannels st"
  let ?s2 = "snd (write_each m ?M ?s1)"
  let ?agg = "\<lparr>pstate = (if ?N = 0 then Fulfilled else Pending), parent = None, remaining = ?N\<rparr>"
  let ?s' = "snd (SendStep_handle l m st)"
  have idle: "write_callbacks (channels st ! i) = []" if "i < length (channels st)" for i
    using assms(1) that by (simp add: idle_def list_all_length)
  have fr: "fresh x st" if "?n \<le> x" "x \<le> ?q" for x
  proof -
    have "x \<in> set [?n..<?n + Suc ?N]" using that by auto
    then show ?thesis
      using assms(2) unfolding unreferenced_def list_all_iff by blast
  qed
  have d1: "distinct ?M" by (rule matching_facts(1))
  have d2: "\<forall>i \<in> set ?M. i < length (channels ?s1)"
    by (simp add: matching_facts(2) log_def)
  have d3: "\<forall>i \<in> set ?M. write_callbacks (channels ?s1 ! i) = []"
    using idle by (simp add: matching_facts(2) log_def)
  note w = write_each_props [OF d1 d2 d3, of m]
  have w1: "fst (write_each m ?M ?s1) = [?n..<?n + ?N]"
    using w [THEN conjunct1] by (simp add: log_def)
  have w2: "promises ?s2 = promises st @ replicate ?N fresh_promise"
    using w [THEN conjunct2, THEN conjunct1] by (simp add: log_def)
  have w3: "length (channels ?s2) = length (channels st)"
    using w [THEN conjunct2, THEN conjunct2, THEN conjunct1] by (simp add: log_def)
  have w4: "write_callbacks (channels ?s2 ! (?M ! k)) = [?n + k]
      \<and> writes (channels ?s2 ! (?M ! k)) = writes (channels st ! (?M ! k)) @ [m]"
    if "k < ?N" for k
    using w [THEN conjunct2, THEN conjunct2, THEN conjunct2, THEN conjunct1] that
    by (simp add: log_def)
  have w5: "channels ?s2 ! j = channels st ! j" if "j \<notin> set ?M" for j
    using w [THEN conjunct2, THEN conjunct2, THEN conjunct2, THEN conjunct2, THEN conjunct1] that
    by (simp add: log_def)
  have m_eq: "filter (\<lambda>i. matchesChannel l (channels ?s1 ! i)) [0..<length (channels ?s1)] = ?M"
    by (simp add: matching_def log_def)
  have h: "SendStep_handle l m st = promise_all (fst (write_each m ?M ?s1)) ?s2"
    by (simp add: SendStep_handle_def Let_def m_eq)
  have len2: "length (promises ?s2) = ?q"
    by (simp add: w2)
  show 1: "fst (SendStep_handle l m st) = ?q"
    by (simp add: h promise_all_def Let_def len2)
  have empty: "([?n..<?n + ?N] = []) = (?N = 0)"
    by auto
  have pr: "promises ?s' = set_parent ?q [?n..<?n + ?N] (promises ?s2) @ [?agg]"
    by (simp only: h promise_all_def Let_def w1 len2 snd_conv empty) simp
  have ch: "channels ?s' = channels ?s2" "listeners ?s' = listeners ?s2"
    "mediaTracks ?s' = mediaTracks ?s2"
    by (simp_all add: h promise_all_def Let_def)
  have len': "length (promises ?s') = Suc ?q"
    by (simp add: pr len2)
  have pq: "promises ?s' ! ?q = ?agg"
    using nth_append_length [of "set_parent ?q [?n..<?n + ?N] (promises ?s2)" ?agg]
    by (simp add: pr len2)
  have below: "promises ?s' ! x = set_parent ?q [?n..<?n + ?N] (promises ?s2) ! x" if "x < ?q" for x
    using that by (simp add: pr nth_append len2)
  have pel: "promises ?s' ! x = fresh_promise\<lparr>parent := Some ?q\<rparr>" if "?n \<le> x" "x < ?q" for x
  proof -
    have "promises ?s2 ! x = fresh_promise"
      using that by (simp add: w2 nth_append)
    then show ?thesis
      using that by (simp add: below set_parent_nth len2)
  qed
  have pold: "promises ?s' ! x = promises st ! x" if "x < ?n" for x
  proof -
    have "promises ?s2 ! x = promises st ! x"
      using that by (simp add: w2 nth_append)
    then show ?thesis
      using that by (simp add: below set_parent_nth len2)
  qed
  show 3: "length (channels ?s') = length (channels st)"
    by (simp add: ch w3)
  have in_M: "\<exists>k < ?N. i = ?M ! k" if "i \<in> set ?M" for i
    using that by (metis in_set_conv_nth)
  show "writes (channels ?s' ! i)
      = (if matchesChannel l (channels st ! i) then writes (channels st ! i) @ [m]
         else writes (channels st ! i))" if i: "i < length (channels st)"
  proof (cases "i \<in> set ?M")
    case True
    then obtain k where "k < ?N" "i = ?M ! k" using in_M by blast
    then show ?thesis
      using w4 [of k] True i by (simp add: ch matching_facts(2))
  next
    case False
    then show ?thesis
      using w5 [of i] i by (simp add: ch matching_facts(2))
  qed
  have quiet': "quiet x ?s'" if "?n \<le> x" "x \<le> ?q" for x
  proof -
    have "quiet x ?s' = quiet x ?s1"
      using write_each_frame [of m ?M ?s1] by (intro quiet_same) (simp_all add: ch)
    also have "\<dots> = quiet x st"
      by (intro quiet_same) (simp_all add: log_def)
    finally show ?thesis
      using fr [OF that] by (simp add: quiet_def fresh_def)
  qed
  have sh: "shielded x ?s'" if x: "?n \<le> x" "x \<le> ?q" for x
    unfolding shielded_def
  proof (intro conjI allI impI)
    show "quiet x ?s'" using x by (rule quiet')
    fix p assume p: "p < length (promises ?s')" "parent (promises ?s' ! p) = Some x"
    consider "p < ?n" | "?n \<le> p" "p < ?q" | "p = ?q"
      using p(1) len' by linarith
    then show "quiet p ?s'"
    proof cases
      case 1
      have "Some x \<notin> set (map parent (promises st))"
        using fr [OF x] by (simp add: fresh_def untouchable_def)
      from parent_not [OF this 1] show ?thesis
        using p(2) pold [OF 1] by simp
    next
      case 2
      then show ?thesis by (intro quiet') simp_all
    next
      case 3
      then show ?thesis using p(2) pq by simp
    qed
  qed
  have inj: "inj_on (\<lambda>k. (?M ! k, ?n + k)) {..<?N}"
    by (rule inj_onI) simp
  have card: "card ?A = ?N"
    using card_image [OF inj] by simp
  have emptyA: "(?A = {}) = (?N = 0)"
    by auto
  have elem: "?M ! k < length (channels ?s') \<and> write_callbacks (channels ?s' ! (?M ! k)) = [?n + k]
      \<and> ?n + k < length (promises ?s') \<and> ?n + k \<noteq> ?q
      \<and> pstate (promises ?s' ! (?n + k)) = Pending
      \<and> parent (promises ?s' ! (?n + k)) = Some ?q" if kN: "k < ?N" for k
  proof (intro conjI)
    have mem: "?M ! k \<in> set ?M" using kN by simp
    show "?M ! k < length (channels ?s')"
      using mem by (simp add: 3 matching_facts(2))
    show "write_callbacks (channels ?s' ! (?M ! k)) = [?n + k]"
      using w4 [OF kN] by (simp add: ch)
    show "?n + k < length (promises ?s')" using kN by (simp add: len')
    show "?n + k \<noteq> ?q" using kN by simp
    have "promises ?s' ! (?n + k) = fresh_promise\<lparr>parent := Some ?q\<rparr>"
      using kN by (intro pel) simp_all
    then show "pstate (promises ?s' ! (?n + k)) = Pending"
      "parent (promises ?s' ! (?n + k)) = Some ?q"
      by (simp_all add: fresh_promise_def)
  qed
  show "sending ?q ?A ?s'"
    unfolding sending_def
  proof (intro conjI)
    show "finite ?A" by simp
    show "?q < length (promises ?s')" by (simp add: len')
    show "parent (promises ?s' ! ?q) = None" by (simp add: pq)
    show "remaining (promises ?s' ! ?q) = card ?A" by (simp add: pq card)
    show "pstate (promises ?s' ! ?q) = (if ?A = {} then Fulfilled else Pending)"
      by (simp only: emptyA pq) simp
    show "\<forall>(i, p) \<in> ?A. i < length (channels ?s') \<and> write_callbacks (channels ?s' ! i) = [p]
        \<and> p < length (promises ?s') \<and> p \<noteq> ?q
        \<and> pstate (promises ?s' ! p) = Pending \<and> parent (promises ?s' ! p) = Some ?q"
    proof (rule ballI)
      fix x assume "x \<in> ?A"
      then obtain k where k: "k < ?N" "x = (?M ! k, ?n + k)" by auto
      show "case x of (i, p) \<Rightarrow> i < length (channels ?s') \<and> write_callbacks (channels ?s' ! i) = [p]
        \<and> p < length (promises ?s') \<and> p \<noteq> ?q
        \<and> pstate (promises ?s' ! p) = Pending \<and> parent (promises ?s' ! p) = Some ?q"
        unfolding k(2) prod.case by (rule elem [OF k(1)])
    qed
    show "inj_on fst ?A"
    proof (rule inj_onI)
      fix a b assume a: "a \<in> ?A" and b: "b \<in> ?A" and e: "fst a = fst b"
      from a obtain k where k: "k < ?N" "a = (?M ! k, ?n + k)" by auto
      from b obtain k' where k': "k' < ?N" "b = (?M ! k', ?n + k')" by auto
      have "?M ! k = ?M ! k'" using e k(2) k'(2) by simp
      then have "k = k'"
        using d1 k(1) k'(1) by (simp add: nth_eq_iff_index_eq)
      then show "a = b" using k(2) k'(2) by simp
    qed
    show "inj_on snd ?A"
      by (rule inj_onI) auto
    show "\<forall>i < length (channels ?s'). i \<notin> fst ` ?A \<longrightarrow> write_callbacks (channels ?s' ! i) = []"
    proof (intro allI impI)
      fix i assume i: "i < length (channels ?s')" "i \<notin> fst ` ?A"
      have "i \<notin> set ?M"
      proof
        assume "i \<in> set ?M"
        then obtain k where "k < ?N" "i = ?M ! k" using in_M by blast
        then have "i = fst (?M ! k, ?n + k)" "(?M ! k, ?n + k) \<in> ?A" by simp_all
        then have "i \<in> fst ` ?A" by (rule image_eqI)
        then show False using i(2) by simp
      qed
      then show "write_callbacks (channels ?s' ! i) = []"
        using w5 [of i] idle [of i] i(1) by (simp add: ch 3 [symmetric])
    qed
    show "\<forall>x \<in> insert ?q (snd ` ?A). shielded x ?s'"
    proof
      fix x assume "x \<in> insert ?q (snd ` ?A)"
      then have "?n \<le> x" "x \<le> ?q" by auto
      then show "shielded x ?s'" by (rule sh)
    qed
  qed
qed

text \<open>
  C3. Let \<^verbatim>\<open>SendStep.handle\<close> run on a connection on which no earlier write awaits its
  acknowledgement and in a state that does not yet refer to the promises the call
  allocates. The call writes the message once to every channel of the connection that
  matches the label filter and to no other, all writes being issued before the call
  returns. After any events \<open>es\<close> that follow, the promise of the call is in the state the
  specification gives: fulfilled at once when no channel matches; otherwise pending
  until the write on each of the matching channels has been acknowledged, and fulfilled
  from then on; rejected with \<^verbatim>\<open>WriteFailed\<close> from the first acknowledgement with an error
  on, whether or not the other writes are ever acknowledged.
\<close>

theorem send_message_settles_with_its_writes:
  assumes "idle st" and "unreferenced (Suc (length (matching l st))) st"
  shows "length (channels (snd (SendStep_handle l m st))) = length (channels st)
    \<and> (\<forall>i < length (channels st).
          writes (channels (snd (SendStep_handle l m st)) ! i)
          = (if matchesChannel l (channels st ! i) then writes (channels st ! i) @ [m]
             else writes (channels st ! i)))
    \<and> promise_state_of (fst (SendStep_handle l m st)) (run es (snd (SendStep_handle l m st)))
        = send_outcome (matching l st) es"
proof (intro conjI allI impI)
  note e = send_establishes [OF assms, where m = m]
  show "length (channels (snd (SendStep_handle l m st))) = length (channels st)"
    by (rule e(3))
  show "writes (channels (snd (SendStep_handle l m st)) ! i)
      = (if matchesChannel l (channels st ! i) then writes (channels st ! i) @ [m]
         else writes (channels st ! i))" if "i < length (channels st)" for i
    using that by (rule e(4))
  have "fst ` ((\<lambda>k. (matching l st ! k, length (promises st) + k)) ` {..<length (matching l st)})
      = set (matching l st)"
  proof -
    have "fst ` ((\<lambda>k. (matching l st ! k, length (promises st) + k)) ` {..<length (matching l st)})
        = (\<lambda>k. matching l st ! k) ` {..<length (matching l st)}"
      by (simp add: image_image)
    also have "\<dots> = set (matching l st)"
      by (simp add: set_conv_nth image_def) blast
    finally show ?thesis .
  qed
  from sending_run [OF e(2) this, of es]
  show "promise_state_of (fst (SendStep_handle l m st)) (run es (snd (SendStep_handle l m st)))
      = send_outcome (matching l st) es"
    by (simp add: e(1))
qed

text \<open>
  A message sent to two channels: pending after one acknowledgement, fulfilled after
  both, rejected by one failed write while the other is still pending. With a filter
  that matches no channel nothing is written and the promise is fulfilled at once.
\<close>

theorem send_message_witness:
  "idle chat_and_log \<and> unreferenced 3 chat_and_log \<and> unreferenced 1 chat_and_log
   \<and> matching None chat_and_log = [0, 1] \<and> matching (Some ''video'') chat_and_log = []
   \<and> writes (channels (snd (SendStep_handle None (Text ''Goodbye'') chat_and_log)) ! 0)
       = [Text ''Goodbye'']
   \<and> writes (channels (snd (SendStep_handle None (Text ''Goodbye'') chat_and_log)) ! 1)
       = [Text ''Goodbye'']
   \<and> promise_state_of 2 (snd (SendStep_handle None (Text ''Goodbye'') chat_and_log)) = Pending
   \<and> promise_state_of 2
        (run [WriteDone 0 None, ChannelData 1]
          (snd (SendStep_handle None (Text ''Goodbye'') chat_and_log))) = Pending
   \<and> promise_state_of 2
        (run [WriteDone 0 None, ChannelData 1, WriteDone 1 None]
          (snd (SendStep_handle None (Text ''Goodbye'') chat_and_log))) = Fulfilled
   \<and> promise_state_of 2
        (run [WriteDone 1 (Some (Error ''reset'')), ChannelOpen ''late'' True]
          (snd (SendStep_handle None (Text ''Goodbye'') chat_and_log)))
       = Rejected (WriteFailed (Error ''reset''))
   \<and> writes (channels (snd (SendStep_handle (Some ''video'') (Text ''Goodbye'') chat_and_log)) ! 0)
       = []
   \<and> promise_state_of 0 (snd (SendStep_handle (Some ''video'') (Text ''Goodbye'') chat_and_log))
       = Fulfilled"
proof -
  have i: "idle chat_and_log"
    by (simp add: idle_def chat_and_log_def new_connection_def new_channel_def)
  have u: "unreferenced n chat_and_log" for n
    by (simp add: unreferenced_def list_all_iff fresh_def conn_owned_def data_quiet_iff
        data_owned_def untouchable_def chat_and_log_def new_connection_def new_channel_def)
  have c: "length (channels chat_and_log) = 2" "length (promises chat_and_log) = 0"
    "channels chat_and_log ! 0 = new_channel ''chat''"
    "channels chat_and_log ! Suc 0 = new_channel ''log''"
    by (simp_all add: chat_and_log_def new_connection_def)
  have two: "[0..<2] = [0, Suc 0]"
    by (simp add: upt_rec)
  have m: "matching None chat_and_log = [0, 1]" "matching (Some ''video'') chat_and_log = []"
    by (simp_all add: matching_def c two matchesChannel_def new_channel_def)
  have f: "fst (SendStep_handle None (Text ''Goodbye'') chat_and_log) = 2"
    "fst (SendStep_handle (Some ''video'') (Text ''Goodbye'') chat_and_log) = 0"
    using send_establishes(1) [OF i u, of None "Text ''Goodbye''"]
      send_establishes(1) [OF i u, of "Some ''video''" "Text ''Goodbye''"]
    by (simp_all add: m c)
  note t = send_message_settles_with_its_writes [OF i, of None, unfolded m, simplified, OF u,
      where m = "Text ''Goodbye''"]
  note t0 = send_message_settles_with_its_writes [OF i, of "Some ''video''", unfolded m, simplified,
      OF u, where m = "Text ''Goodbye''" and es = "[]"]
  have r: "run [] s = s" for s
    by (simp add: run_def)
  from t [of "[]"] t [of "[WriteDone 0 None, ChannelData 1]"]
    t [of "[WriteDone 0 None, ChannelData 1, WriteDone 1 None]"]
    t [of "[WriteDone 1 (Some (Error ''reset'')), ChannelOpen ''late'' True]"] t0
  show ?thesis
    using i u [of 3] u [of 1] m
    by (simp add: f c r matchesChannel_def new_channel_def)
qed

end
